theory Spec2Isabelle
  imports Main "HOL-Library.Word"
begin

unbundle bit_operations_syntax

section \<open>Machine types\<close>

type_synonym u8 = "8 word"
type_synonym u16 = "16 word"
type_synonym u32 = "32 word"

text \<open>
  C leaves \<open>a << n\<close> on a 32-bit operand undefined once \<open>n\<close> reaches 32.  The value such
  a shift yields is therefore not fixed here: it is the parameter \<open>ub\<close> (a function of
  the two operands), and every statement below holds for each choice of it.  A shift by
  less than 32 is the usual one.
\<close>

type_synonym wide_shift = "u32 \<Rightarrow> u32 \<Rightarrow> u32"

definition shl_u32 :: "wide_shift \<Rightarrow> u32 \<Rightarrow> u32 \<Rightarrow> u32" where
  "shl_u32 ub a n = (if n < 32 then push_bit (unat n) a else ub a n)"

section \<open>linear_to_swizzle\<close>

text \<open>
  One of the three \<open>if (log2_axis) { ... }\<close> blocks of the loop body: when the axis
  still has bits left, its lowest coordinate bit is or-ed into \<open>offset\<close> at
  \<open>shift_count\<close>, the coordinate is shifted right, \<open>shift_count\<close> goes up and the
  budget goes down.  The state is (coordinate, budget, offset, shift_count).
\<close>

definition axis_block :: "wide_shift \<Rightarrow> u32 \<Rightarrow> u32 \<Rightarrow> u32 \<Rightarrow> u32 \<Rightarrow> u32 \<times> u32 \<times> u32 \<times> u32" where
  "axis_block ub c budget offset shift_count =
     (if budget \<noteq> 0
      then (drop_bit 1 c, budget - 1, offset OR shl_u32 ub (c AND 1) shift_count, shift_count + 1)
      else (c, budget, offset, shift_count))"

function l2s_loop ::
  "wide_shift \<Rightarrow> u32 \<Rightarrow> u32 \<Rightarrow> u32 \<Rightarrow> u32 \<Rightarrow> u32 \<Rightarrow> u32 \<Rightarrow> u32 \<Rightarrow> u32 \<Rightarrow> u32" where
  "l2s_loop ub x y z log2_width log2_height log2_depth offset shift_count =
     (if (log2_width OR log2_height OR log2_depth) \<noteq> 0 then
        (case axis_block ub x log2_width offset shift_count of
           (x', log2_width', offset1, shift_count1) \<Rightarrow>
        (case axis_block ub y log2_height offset1 shift_count1 of
           (y', log2_height', offset2, shift_count2) \<Rightarrow>
        (case axis_block ub z log2_depth offset2 shift_count2 of
           (z', log2_depth', offset3, shift_count3) \<Rightarrow>
          l2s_loop ub x' y' z' log2_width' log2_height' log2_depth' offset3 shift_count3)))
      else offset)"
  by pat_completeness auto

termination
  apply (relation "measure (\<lambda>(ub, x, y, z, lw, lh, ld, off, sc). unat lw + unat lh + unat ld)")
   apply simp
  apply (auto simp: axis_block_def or_eq_0_iff add_less_mono add_less_le_mono add_le_less_mono
      measure_unat split: if_splits)
  done

declare l2s_loop.simps [simp del]

definition linear_to_swizzle :: "wide_shift \<Rightarrow> u32 \<Rightarrow> u32 \<Rightarrow> u32 \<Rightarrow> u32 \<Rightarrow> u32 \<Rightarrow> u32 \<Rightarrow> u32" where
  "linear_to_swizzle ub x y z log2_width log2_height log2_depth =
     l2s_loop ub x y z log2_width log2_height log2_depth 0 0"

text \<open>
  Two concrete readings of the out-of-range shift, used where a statement is evaluated at
  a fixed input: the x86 one (the count is taken modulo 32) and the zero-filling one.
\<close>

definition shl_mod32 :: wide_shift where
  "shl_mod32 a n = push_bit (unat n mod 32) a"

definition shl_zero :: wide_shift where
  "shl_zero a n = 0"

section \<open>The address mapper as the specification words it\<close>

text \<open>
  The specification describes the mapper as consuming one bit of \<open>x\<close> and one bit of
  \<open>y\<close> alternately, starting with the least significant bit of \<open>x\<close>, each consumed
  bit going to the next free output position; when one axis has no bits left only the
  other is consumed.  \<open>consumed_bits\<close> lists the bits in the order of consumption
  (\<open>x_turn\<close> tells whose turn it is), \<open>bits_value\<close> reads such a list as a number,
  first bit least significant.
\<close>

function consumed_bits :: "bool \<Rightarrow> nat \<Rightarrow> nat \<Rightarrow> nat \<Rightarrow> nat \<Rightarrow> bool list" where
  "consumed_bits x_turn x y bitsX bitsY =
     (if bitsX = 0 \<and> bitsY = 0 then []
      else if bitsY = 0 then odd x # consumed_bits False (x div 2) y (bitsX - 1) bitsY
      else if x_turn \<and> 0 < bitsX then odd x # consumed_bits False (x div 2) y (bitsX - 1) bitsY
      else odd y # consumed_bits True x (y div 2) bitsX (bitsY - 1))"
  by pat_completeness auto
termination
  by (relation "measure (\<lambda>(t, x, y, nx, ny). nx + ny)") auto

declare consumed_bits.simps [simp del]

fun bits_value :: "bool list \<Rightarrow> nat" where
  "bits_value [] = 0"
| "bits_value (b # bs) = of_bool b + 2 * bits_value bs"

definition interleave_spec :: "nat \<Rightarrow> nat \<Rightarrow> nat \<Rightarrow> nat \<Rightarrow> nat" where
  "interleave_spec x y bitsX bitsY = bits_value (consumed_bits True x y bitsX bitsY)"

section \<open>Pixel buffers\<close>

text \<open>
  A surface is a flat buffer of 32-bit elements.  The source and the destination of a
  transcode are two buffers, never the same memory.  \<open>assign dst j src i\<close> is the C
  statement \<open>dst[j] = src[i]\<close>; an index outside either buffer, undefined in C, is the
  failure \<open>None\<close>.
\<close>

type_synonym buffer = "u32 list"

definition assign :: "buffer \<Rightarrow> nat \<Rightarrow> buffer \<Rightarrow> nat \<Rightarrow> buffer option" where
  "assign dst j src i = (if i < length src \<and> j < length dst then Some (dst[j := src ! i]) else None)"

text \<open>
  Both transcoders start with \<open>log2(width)\<close> and \<open>log2(height)\<close>, the C library's
  base-2 logarithm on \<open>double\<close>, converted back to an unsigned integer (truncation).
  For a 16-bit argument other than 0 that is the position of its highest set bit,
  \<open>ilog2\<close>; for 0 the logarithm is minus infinity and the conversion is undefined,
  which is the failure \<open>None\<close>.
\<close>

fun ilog2 :: "nat \<Rightarrow> nat" where
  "ilog2 n = (if n < 2 then 0 else Suc (ilog2 (n div 2)))"

declare ilog2.simps [simp del]

definition log2_u16 :: "u16 \<Rightarrow> nat option" where
  "log2_u16 w = (if w = 0 then None else Some (ilog2 (unat w)))"

section \<open>slowSwizzle\<close>

text \<open>
  \<open>slow_cols\<close> is the inner loop \<open>for (u16 x = 0; x < width; ++x)\<close>, \<open>slow_rows\<close>
  the outer loop over \<open>y\<close>.  In \<open>u32 rowStart = y * width\<close> both operands are promoted
  to \<open>int\<close>; a product of 2 ^ 31 or more overflows it, which is undefined and the
  failure \<open>None\<close>.
\<close>

function slow_cols ::
  "wide_shift \<Rightarrow> buffer \<Rightarrow> u16 \<Rightarrow> bool \<Rightarrow> u16 \<Rightarrow> u16 \<Rightarrow> u16 \<Rightarrow> u32 \<Rightarrow> u16 \<Rightarrow> buffer \<Rightarrow> buffer option" where
  "slow_cols ub pixelSrc width swap log2Width log2Height y rowStart x pixelDst =
     (if x < width then
        (case (if swap
               then assign pixelDst
                      (unat (linear_to_swizzle ub (ucast x) (ucast y) 0 (ucast log2Width) (ucast log2Height) 0))
                      pixelSrc (unat (rowStart + ucast x))
               else assign pixelDst (unat (rowStart + ucast x))
                      pixelSrc
                      (unat (linear_to_swizzle ub (ucast x) (ucast y) 0 (ucast log2Width) (ucast log2Height) 0)))
         of None \<Rightarrow> None
          | Some pixelDst' \<Rightarrow>
              slow_cols ub pixelSrc width swap log2Width log2Height y rowStart (x + 1) pixelDst')
      else Some pixelDst)"
  by pat_completeness auto
termination
  apply (relation "measure (\<lambda>(ub, src, width, swap, lw, lh, y, rs, x, dst). unat width - unat x)")
   apply simp
  apply simp
  apply unat_arith
  done


declare slow_cols.simps [simp del]

function slow_rows ::
  "wide_shift \<Rightarrow> buffer \<Rightarrow> u16 \<Rightarrow> u16 \<Rightarrow> bool \<Rightarrow> u16 \<Rightarrow> u16 \<Rightarrow> u16 \<Rightarrow> buffer \<Rightarrow> buffer option" where
  "slow_rows ub pixelSrc width height swap log2Width log2Height y pixelDst =
     (if y < height then
        (if 2 ^ 31 \<le> uint y * uint width then None
         else
           (case slow_cols ub pixelSrc width swap log2Width log2Height y
                   (word_of_int (uint y * uint width)) 0 pixelDst
            of None \<Rightarrow> None
             | Some pixelDst' \<Rightarrow>
                 slow_rows ub pixelSrc width height swap log2Width log2Height (y + 1) pixelDst'))
      else Some pixelDst)"
  by pat_completeness auto
termination
  apply (relation "measure (\<lambda>(ub, src, width, height, swap, lw, lh, y, dst). unat height - unat y)")
   apply simp
  apply simp
  apply unat_arith
  done

declare slow_rows.simps [simp del]

definition slowSwizzle ::
  "wide_shift \<Rightarrow> buffer \<Rightarrow> buffer \<Rightarrow> u16 \<Rightarrow> u16 \<Rightarrow> bool \<Rightarrow> buffer option" where
  "slowSwizzle ub inputPixels outputPixels width height swap =
     (case log2_u16 width of None \<Rightarrow> None
      | Some log2Width \<Rightarrow>
     (case log2_u16 height of None \<Rightarrow> None
      | Some log2Height \<Rightarrow>
          slow_rows ub inputPixels width height swap (word_of_nat log2Width) (word_of_nat log2Height)
            0 outputPixels))"

section \<open>fastSwizzle\<close>

text \<open>
  The source writes the loop nest twice, once under \<open>if (swap)\<close> and once under
  \<open>else\<close>; the two copies differ only in the statement that moves an element
  (\<open>dst[offs_x] = src[x]\<close> against \<open>dst[x] = src[offs_x]\<close>) and in which of \<open>src\<close>
  and \<open>dst\<close> is advanced by \<open>y*width\<close> and which by \<open>offs_y\<close>.  Here the test of
  \<open>swap\<close> sits at that statement.  \<open>row\<close> is \<open>y*width\<close>, the start of the linear row;
  the row pointer advanced by \<open>offs_y\<close> and indexed by \<open>offs_x\<close> addresses element
  \<open>offs_y + offs_x\<close>.  The counters \<open>x\<close> and \<open>y\<close> are C \<open>int\<close>s that stay below a
  16-bit bound, so they never overflow; \<open>y*width\<close> is an \<open>int\<close> product as in
  \<open>slowSwizzle\<close>, and a product outside \<open>[0, 2 ^ 31)\<close> is the failure \<open>None\<close>.
\<close>

function fast_cols ::
  "buffer \<Rightarrow> int \<Rightarrow> bool \<Rightarrow> u32 \<Rightarrow> nat \<Rightarrow> nat \<Rightarrow> int \<Rightarrow> u32 \<Rightarrow> buffer \<Rightarrow> buffer option" where
  "fast_cols inputPixels width swap x_mask row offs_y x offs_x outputPixels =
     (if x < width then
        (case (if swap
               then assign outputPixels (offs_y + unat offs_x) inputPixels (row + nat x)
               else assign outputPixels (row + nat x) inputPixels (offs_y + unat offs_x))
         of None \<Rightarrow> None
          | Some outputPixels' \<Rightarrow>
              fast_cols inputPixels width swap x_mask row offs_y (x + 1)
                ((offs_x - x_mask) AND x_mask) outputPixels')
      else Some outputPixels)"
  by pat_completeness auto
termination
  by (relation "measure (\<lambda>(src, width, swap, xm, row, oy, x, ox, dst). nat (width - x))") auto

declare fast_cols.simps [simp del]

function fast_rows ::
  "buffer \<Rightarrow> int \<Rightarrow> int \<Rightarrow> bool \<Rightarrow> u32 \<Rightarrow> u32 \<Rightarrow> u32 \<Rightarrow> int \<Rightarrow> u32 \<Rightarrow> u32 \<Rightarrow> buffer \<Rightarrow> buffer option" where
  "fast_rows inputPixels width height swap x_mask y_mask y_incr y offs_y offs_x0 outputPixels =
     (if y < height then
        (if y * width < 0 \<or> 2 ^ 31 \<le> y * width then None
         else
           (case fast_cols inputPixels width swap x_mask (nat (y * width)) (unat offs_y) 0 offs_x0
                   outputPixels
            of None \<Rightarrow> None
             | Some outputPixels' \<Rightarrow>
                 (let offs_y' = (offs_y - y_mask) AND y_mask in
                  fast_rows inputPixels width height swap x_mask y_mask y_incr (y + 1) offs_y'
                    (if offs_y' = 0 then offs_x0 + y_incr else offs_x0) outputPixels')))
      else Some outputPixels)"
  by pat_completeness auto
termination
  by (relation "measure (\<lambda>(src, width, height, swap, xm, ym, yi, y, oy, ox0, dst). nat (height - y))") auto

declare fast_rows.simps [simp del]

text \<open>
  In \<open>limitMask = 1 << (limitMask << 1)\<close> the count is at most 30, because the
  logarithm of a 16-bit value is at most 15; the shift is always defined.
\<close>

definition fastSwizzle :: "buffer \<Rightarrow> buffer \<Rightarrow> u16 \<Rightarrow> u16 \<Rightarrow> bool \<Rightarrow> buffer option" where
  "fastSwizzle inputPixels outputPixels width height swap =
     (case log2_u16 width of None \<Rightarrow> None
      | Some l2w \<Rightarrow>
     (case log2_u16 height of None \<Rightarrow> None
      | Some l2h \<Rightarrow>
       (let log2width = (word_of_nat l2w :: u32);
            log2height = (word_of_nat l2h :: u32);
            limitMask0 = (if log2width < log2height then log2width else log2height);
            limitMask = (push_bit (unat (push_bit 1 limitMask0 :: u32)) 1 :: u32);
            x_mask = 0x555555 OR NOT (limitMask - 1);
            y_mask = 0xAAAAAA AND (limitMask - 1)
        in fast_rows inputPixels (uint width) (uint height) swap x_mask y_mask limitMask
             0 0 0 outputPixels)))"

section \<open>The benchmark entry point\<close>

text \<open>
  \<open>main\<close> fills \<open>linearPixels\<close> with \<open>0, 1, 2, ...\<close> and allocates two output buffers
  that it does not initialise (their first contents are the parameters \<open>slow_uninit\<close>
  and \<open>fast_uninit\<close>).  Each of the \<open>numTimes\<close> iterations calls \<open>memset\<close> on both
  outputs, runs \<open>slowSwizzle\<close> and \<open>fastSwizzle\<close> with the default \<open>swap = false\<close>, and
  compares the outputs with \<open>memcmp\<close>; a difference prints \<open>mismatch!\<close> and reads an
  integer from standard input.  After the loop the times are printed, \<open>system("PAUSE")\<close>
  runs and \<open>main\<close> returns 0.

  \<open>memset\<close> and \<open>memcmp\<close> work on bytes: \<open>buffer_bytes\<close> is the byte image of a buffer
  (little-endian, as on the x86 target), \<open>bytes_words\<close> reads words back.  Both calls
  pass \<open>max_w * max_h\<close> as the byte count.  The clock readings are not modelled; what a
  run does observably is the list of its events and its exit status.

  \<open>main\<close> opens with \<open>u16 max_h = 128; u16 max_w = 128; u32 numTimes = 4;\<close> and never
  assigns these again.  \<open>main_body\<close> is the rest of \<open>main\<close> with the three values as
  parameters, and \<open>main\<close> is \<open>main_body\<close> at 128, 128 and 4.  The product
  \<open>max_w * max_h\<close> is computed in \<open>int\<close>; a product that does not fit, and a
  transcoder that leaves a buffer, make the run fail (\<open>None\<close>).
\<close>

definition word_bytes :: "u32 \<Rightarrow> u8 list" where
  "word_bytes w = [ucast w, ucast (drop_bit 8 w), ucast (drop_bit 16 w), ucast (drop_bit 24 w)]"

definition buffer_bytes :: "buffer \<Rightarrow> u8 list" where
  "buffer_bytes buf = concat (map word_bytes buf)"

fun bytes_words :: "u8 list \<Rightarrow> buffer" where
  "bytes_words (b0 # b1 # b2 # b3 # bs) =
     (ucast b0 OR push_bit 8 (ucast b1) OR push_bit 16 (ucast b2) OR push_bit 24 (ucast b3))
       # bytes_words bs"
| "bytes_words bs = []"

definition memset :: "buffer \<Rightarrow> u8 \<Rightarrow> nat \<Rightarrow> buffer" where
  "memset buf c n = bytes_words (replicate n c @ drop n (buffer_bytes buf))"

definition memcmp_differs :: "buffer \<Rightarrow> buffer \<Rightarrow> nat \<Rightarrow> bool" where
  "memcmp_differs a b n = (take n (buffer_bytes a) \<noteq> take n (buffer_bytes b))"

datatype event = PrintMismatch | ReadHold | PrintTimes | SystemPause

function bench_loop ::
  "wide_shift \<Rightarrow> buffer \<Rightarrow> u16 \<Rightarrow> u16 \<Rightarrow> u32 \<Rightarrow> u32 \<Rightarrow> buffer \<Rightarrow> buffer \<Rightarrow> event list
     \<Rightarrow> (buffer \<times> buffer \<times> event list) option" where
  "bench_loop ub linearPixels max_w max_h numTimes count slowSwizzlePixels fastSwizzlePixels out =
     (if count < numTimes then
        (case slowSwizzle ub linearPixels (memset slowSwizzlePixels 0xcc (unat max_w * unat max_h))
                max_w max_h False of
           None \<Rightarrow> None
         | Some slowSwizzlePixels' \<Rightarrow>
        (case fastSwizzle linearPixels (memset fastSwizzlePixels 0xcc (unat max_w * unat max_h))
                max_w max_h False of
           None \<Rightarrow> None
         | Some fastSwizzlePixels' \<Rightarrow>
             bench_loop ub linearPixels max_w max_h numTimes (count + 1)
               slowSwizzlePixels' fastSwizzlePixels'
               (if memcmp_differs slowSwizzlePixels' fastSwizzlePixels' (unat max_h * unat max_w)
                then out @ [PrintMismatch, ReadHold] else out)))
      else Some (slowSwizzlePixels, fastSwizzlePixels, out))"
  by pat_completeness auto
termination
  apply (relation "measure (\<lambda>(ub, l, w, h, n, c, sb, fb, out). unat n - unat c)")
   apply simp
  apply simp
  apply unat_arith
  done

declare bench_loop.simps [simp del]

definition linear_fill :: "nat \<Rightarrow> buffer" where
  "linear_fill n = map word_of_nat [0..<n]"

definition main_body ::
  "wide_shift \<Rightarrow> u16 \<Rightarrow> u16 \<Rightarrow> u32 \<Rightarrow> buffer \<Rightarrow> buffer \<Rightarrow> (int \<times> event list) option" where
  "main_body ub max_h max_w numTimes slow_uninit fast_uninit =
     (if 2 ^ 31 \<le> uint max_w * uint max_h then None
      else
        (let linearPixels = linear_fill (unat max_w * unat max_h)
         in case bench_loop ub linearPixels max_w max_h numTimes 0 slow_uninit fast_uninit [] of
              None \<Rightarrow> None
            | Some (slowSwizzlePixels, fastSwizzlePixels, out) \<Rightarrow>
                Some (0, out @ [PrintTimes, SystemPause])))"

definition main :: "wide_shift \<Rightarrow> buffer \<Rightarrow> buffer \<Rightarrow> (int \<times> event list) option" where
  "main ub slow_uninit fast_uninit = main_body ub 128 128 4 slow_uninit fast_uninit"

section \<open>The reference transcoder as the specification words it\<close>

text \<open>
  The specification gives the transcoder as: for every row \<open>y\<close> in \<open>[0, height)\<close> and
  every column \<open>x\<close> in \<open>[0, width)\<close>, with \<open>offset\<close> the interleaved address of
  \<open>(x, y)\<close>, write \<open>destination[y*width + x] = source[offset]\<close> when de-swizzling and
  \<open>destination[offset] = source[y*width + x]\<close> when swizzling.  \<open>row_pairs\<close> lists the
  pairs (linear index, interleaved offset) of one row, \<open>all_pairs\<close> those of the whole
  surface in row-major order, and \<open>copy_all\<close> performs the copies one after the other,
  failing at the first index outside a buffer.
\<close>

fun copy_all :: "bool \<Rightarrow> buffer \<Rightarrow> (nat \<times> nat) list \<Rightarrow> buffer \<Rightarrow> buffer option" where
  "copy_all swap src [] dst = Some dst"
| "copy_all swap src ((lin, swz) # ps) dst =
     (case (if swap then assign dst swz src lin else assign dst lin src swz) of
        None \<Rightarrow> None
      | Some dst' \<Rightarrow> copy_all swap src ps dst')"

definition row_pairs :: "nat \<Rightarrow> nat \<Rightarrow> nat \<Rightarrow> nat \<Rightarrow> (nat \<times> nat) list" where
  "row_pairs w lw lh j = map (\<lambda>i. (j * w + i, interleave_spec i j lw lh)) [0..<w]"

definition all_pairs :: "nat \<Rightarrow> nat \<Rightarrow> nat \<Rightarrow> nat \<Rightarrow> (nat \<times> nat) list" where
  "all_pairs w h lw lh = concat (map (row_pairs w lw lh) [0..<h])"

section \<open>Auxiliary functions of the proofs\<close>

text \<open>
  \<open>dep M k\<close> deposits the low bits of \<open>k\<close> into the positions of the set bits of the
  mask \<open>M\<close>, lowest first; the masked subtraction \<open>(o - M) AND M\<close> of fastSwizzle steps
  from \<open>dep M k\<close> to \<open>dep M (k + 1)\<close>.  \<open>xmask_nat e m\<close> and \<open>ymask_nat m\<close> are the
  values of \<open>x_mask\<close> and \<open>y_mask\<close> when the interleaved prefix has \<open>m\<close> bits per axis
  and \<open>e\<close> bits lie above it.  \<open>fast_row_pairs\<close> lists the index pairs fastSwizzle
  visits in one row, \<open>swz_index\<close> is the interleaved offset of the element at linear
  index \<open>k\<close>.
\<close>

function dep :: "nat \<Rightarrow> nat \<Rightarrow> nat" where
  "dep M k = (if M = 0 then 0
              else if even M then 2 * dep (M div 2) k
              else k mod 2 + 2 * dep (M div 2) (k div 2))"
  by pat_completeness auto

termination
  by (relation "measure (\<lambda>(M, k). M)") auto

declare dep.simps [simp del]

fun xmask_nat :: "nat \<Rightarrow> nat \<Rightarrow> nat" where
  "xmask_nat e 0 = 2 ^ e - 1"
| "xmask_nat e (Suc m) = 1 + 4 * xmask_nat e m"

fun ymask_nat :: "nat \<Rightarrow> nat" where
  "ymask_nat 0 = 0"
| "ymask_nat (Suc m) = 2 + 4 * ymask_nat m"

definition fast_row_pairs :: "nat \<Rightarrow> nat \<Rightarrow> nat \<Rightarrow> nat \<Rightarrow> (nat \<times> nat) list" where
  "fast_row_pairs w e m j =
     map (\<lambda>i. (j * w + i,
               interleave_spec 0 j m m + interleave_spec ((j div 2 ^ m) * 2 ^ m + i) 0 (m + e) m))
       [0..<w]"

definition swz_index :: "nat \<Rightarrow> nat \<Rightarrow> nat \<Rightarrow> nat \<Rightarrow> nat" where
  "swz_index w lw lh k = interleave_spec (k mod w) (k div w) lw lh"

section \<open>Word arithmetic of one loop step\<close>

text \<open>
  Or-ing a bit in at \<open>shift_count\<close> adds \<open>2 ^ shift_count\<close> times that bit, because the
  offset built so far lies below \<open>2 ^ shift_count\<close>.  With it, the loop of
  \<open>linear_to_swizzle\<close> is read as arithmetic on natural numbers and compared with
  \<open>interleave_spec\<close>.
\<close>

lemma bit_below:
  fixes off :: u32
  assumes "unat off < 2 ^ n" "bit off k"
  shows "k < n"
proof (rule ccontr)
  assume "\<not> k < n"
  then have "(2::nat) ^ n \<le> 2 ^ k" by (intro power_increasing) simp_all
  with assms(1) have "unat off < 2 ^ k" by (rule order.strict_trans2)
  then have "unat off div 2 ^ k = 0" by (rule div_less)
  moreover have "bit (unat off) k" using assms(2) by (simp add: bit_unsigned_iff)
  ultimately show False by (simp add: bit_iff_odd)
qed

lemma unat_and1: "unat ((c::u32) AND 1) = unat c mod 2"
  by (metis and_one_eq unsigned_1 unsigned_and_eq)

lemma unat_push1:
  fixes b :: u32 assumes "n < 32" "unat b \<le> 1"
  shows "unat (push_bit n b) = 2 ^ n * unat b"
proof -
  have "unat b * 2 ^ n \<le> 1 * 2 ^ n" using assms(2) by (rule mult_le_mono1)
  moreover have "(2::nat) ^ n < 2 ^ 32" using assms(1) by (intro power_strict_increasing) simp_all
  ultimately have "unat b * 2 ^ n < 2 ^ 32" by linarith
  then have t: "take_bit 32 (unat b * 2 ^ n) = unat b * 2 ^ n"
    by (rule take_bit_nat_eq_self)
  have "unat (push_bit n b) = take_bit LENGTH(32) (push_bit n (unat b))"
    by (rule unsigned_push_bit_eq)
  also have "\<dots> = take_bit 32 (unat b * 2 ^ n)"
    by (simp only: push_bit_eq_mult) simp
  finally show ?thesis using t by (simp add: mult.commute)
qed

lemma or_bit_unat:
  fixes off c :: u32
  assumes "n < 32" "unat off < 2 ^ n"
  shows "unat (off OR push_bit n (c AND 1)) = unat off + 2 ^ n * (unat c mod 2)"
proof -
  have disj: "\<not> bit off k \<or> \<not> bit (push_bit n (c AND 1)) k" for k
  proof (cases "k < n")
    case True
    then show ?thesis by (simp only: bit_push_bit_iff) simp
  next
    case False
    then show ?thesis using bit_below[OF assms(2), of k] by blast
  qed
  have b1: "unat (c AND 1) \<le> 1" by (simp add: unat_and1)
  have p: "unat (push_bit n (c AND 1)) = 2 ^ n * (unat c mod 2)"
    using unat_push1[OF assms(1) b1] by (simp only: unat_and1)
  have "2 ^ n * (unat c mod 2) \<le> (2::nat) ^ n * 1" by (rule mult_le_mono2) simp
  then have "unat off + unat (push_bit n (c AND 1)) < 2 ^ n + 2 ^ n"
    using assms(2) p by linarith
  also have "\<dots> = (2::nat) ^ Suc n" by simp
  also have "\<dots> \<le> 2 ^ 32" using assms(1) by (intro power_increasing) simp_all
  finally have "unat off + unat (push_bit n (c AND 1)) < 2 ^ LENGTH(32)" by simp
  then have "unat (off + push_bit n (c AND 1)) = unat off + unat (push_bit n (c AND 1))"
    by (simp only: unat_add_lem)
  then show ?thesis using disjunctive_add[of off "push_bit n (c AND 1)", OF disj] p by simp
qed


lemma consumed_bits_x_only: "consumed_bits t x y bx 0 = consumed_bits True x y bx 0"
  by (induction bx arbitrary: x t) (simp_all add: consumed_bits.simps[of _ _ _ _ 0])

lemma consumed_bits_y_only: "consumed_bits t x y 0 ny = consumed_bits True x y 0 ny"
  by (induction ny arbitrary: y t) (simp_all add: consumed_bits.simps[of _ _ _ 0])

lemma of_bool_odd: "of_bool (odd (n::nat)) = n mod 2"
  by (simp add: mod2_eq_if)

lemma interleave_spec_0_0: "interleave_spec x y 0 0 = 0"
  by (simp add: interleave_spec_def consumed_bits.simps)

lemma interleave_spec_Suc_0:
  "interleave_spec x y (Suc bx) 0 = x mod 2 + 2 * interleave_spec (x div 2) y bx 0"
  by (simp add: interleave_spec_def consumed_bits.simps[of True x y "Suc bx" 0]
      consumed_bits_x_only[of False] of_bool_odd)

lemma interleave_spec_0_Suc:
  "interleave_spec x y 0 (Suc ny) = y mod 2 + 2 * interleave_spec x (y div 2) 0 ny"
  by (simp add: interleave_spec_def consumed_bits.simps[of True x y 0 "Suc ny"] of_bool_odd)

lemma interleave_spec_Suc_Suc:
  "interleave_spec x y (Suc bx) (Suc ny) =
     x mod 2 + 2 * (y mod 2) + 4 * interleave_spec (x div 2) (y div 2) bx ny"
  by (simp add: interleave_spec_def consumed_bits.simps[of True x y "Suc bx" "Suc ny"]
      consumed_bits.simps[of False "x div 2" y bx "Suc ny"] of_bool_odd)

lemma unat_succ: "unat (sc::u32) < 32 \<Longrightarrow> unat (sc + 1) = Suc (unat sc)"
proof -
  assume "unat sc < 32"
  then have "unat sc + unat (1::u32) < 2 ^ LENGTH(32)" by simp
  then have "unat (sc + 1) = unat sc + unat (1::u32)" by (simp only: unat_add_lem)
  then show ?thesis by simp
qed

lemma axis_block_step:
  assumes "budget \<noteq> 0" "unat sc < 32" "unat off < 2 ^ unat sc"
  shows "\<exists>off'. axis_block ub c budget off sc = (drop_bit 1 c, budget - 1, off', sc + 1)
           \<and> unat off' = unat off + 2 ^ unat sc * (unat c mod 2)"
proof -
  have "sc < 32" using assms(2) by (simp add: word_less_nat_alt)
  then have "axis_block ub c budget off sc =
     (drop_bit 1 c, budget - 1, off OR push_bit (unat sc) (c AND 1), sc + 1)"
    using assms(1) by (simp add: axis_block_def shl_u32_def)
  then show ?thesis using or_bit_unat[OF assms(2,3)] by blast
qed

lemma unat_half: "unat (drop_bit 1 (c::u32)) = unat c div 2"
  by (simp only: unat_drop_bit_eq) (simp add: drop_bit_eq_div)

lemma next_bound:
  "(a'::nat) = a + 2 ^ k * (c mod 2) \<Longrightarrow> a < 2 ^ k \<Longrightarrow> a' < 2 ^ Suc k"
  by (simp add: mod2_eq_if)

lemma axis_block_done: "axis_block ub c 0 off sc = (c, 0, off, sc)"
  by (simp add: axis_block_def)

lemma l2s_loop_nat:
  assumes "unat lw + unat lh + unat sc \<le> 32" "unat off < 2 ^ unat sc"
  shows "unat (l2s_loop ub x y z lw lh 0 off sc) =
         unat off + 2 ^ unat sc * interleave_spec (unat x) (unat y) (unat lw) (unat lh)"
  using assms
proof (induction "unat lw + unat lh" arbitrary: x y lw lh off sc rule: less_induct)
  case less
  show ?case
  proof (cases "lw = 0")
    case lw0: True
    show ?thesis
    proof (cases "lh = 0")
      case True
      with lw0 show ?thesis
        by (simp add: l2s_loop.simps[of ub x y z 0 0] interleave_spec_0_0)
    next
      case lh: False
      then obtain n where n: "unat lh = Suc n" "unat (lh - 1) = n"
        using unat_minus_one[OF lh] unat_gt_0[of lh] by (cases "unat lh") auto
      have sc: "unat sc < 32" using less.prems(1) n by simp
      obtain off' where st: "axis_block ub y lh off sc = (drop_bit 1 y, lh - 1, off', sc + 1)"
        and off': "unat off' = unat off + 2 ^ unat sc * (unat y mod 2)"
        using axis_block_step[OF lh sc less.prems(2)] by blast
      have b: "unat off' < 2 ^ unat (sc + 1)"
        using next_bound[OF off' less.prems(2)] by (simp only: unat_succ[OF sc])
      have unf: "l2s_loop ub x y z lw lh 0 off sc = l2s_loop ub x (drop_bit 1 y) z 0 (lh - 1) 0 off' (sc + 1)"
        using lw0 lh st
        by (simp add: l2s_loop.simps[of ub x y z 0 lh] axis_block_done or_eq_0_iff)
      have "unat (l2s_loop ub x (drop_bit 1 y) z 0 (lh - 1) 0 off' (sc + 1)) =
            unat off' + 2 ^ unat (sc + 1) *
              interleave_spec (unat x) (unat (drop_bit 1 y)) (unat (0::u32)) (unat (lh - 1))"
        using less.prems(1) n lw0 b
        by (intro less.hyps) (simp_all add: unat_succ[OF sc])
      then have ih: "unat (l2s_loop ub x (drop_bit 1 y) z 0 (lh - 1) 0 off' (sc + 1)) =
            unat off' + 2 ^ Suc (unat sc) * interleave_spec (unat x) (unat y div 2) 0 n"
        by (simp only: unat_succ[OF sc] unat_half n unsigned_0)
      show ?thesis
        unfolding unf ih off' by (simp add: lw0 n interleave_spec_0_Suc algebra_simps)
    qed
  next
    case lw: False
    then obtain m where m: "unat lw = Suc m" "unat (lw - 1) = m"
      using unat_minus_one[OF lw] unat_gt_0[of lw] by (cases "unat lw") auto
    have sc: "unat sc < 32" using less.prems(1) m by simp
    obtain off1 where st1: "axis_block ub x lw off sc = (drop_bit 1 x, lw - 1, off1, sc + 1)"
      and off1: "unat off1 = unat off + 2 ^ unat sc * (unat x mod 2)"
      using axis_block_step[OF lw sc less.prems(2)] by blast
    have b1: "unat off1 < 2 ^ unat (sc + 1)"
      using next_bound[OF off1 less.prems(2)] by (simp only: unat_succ[OF sc])
    show ?thesis
    proof (cases "lh = 0")
      case lh0: True
      have unf: "l2s_loop ub x y z lw lh 0 off sc = l2s_loop ub (drop_bit 1 x) y z (lw - 1) 0 0 off1 (sc + 1)"
        using lw lh0 st1
        by (simp add: l2s_loop.simps[of ub x y z lw 0] axis_block_done or_eq_0_iff)
      have "unat (l2s_loop ub (drop_bit 1 x) y z (lw - 1) 0 0 off1 (sc + 1)) =
            unat off1 + 2 ^ unat (sc + 1) *
              interleave_spec (unat (drop_bit 1 x)) (unat y) (unat (lw - 1)) (unat (0::u32))"
        using less.prems(1) m lh0 b1
        by (intro less.hyps) (simp_all add: unat_succ[OF sc])
      then have ih: "unat (l2s_loop ub (drop_bit 1 x) y z (lw - 1) 0 0 off1 (sc + 1)) =
            unat off1 + 2 ^ Suc (unat sc) * interleave_spec (unat x div 2) (unat y) m 0"
        by (simp only: unat_succ[OF sc] unat_half m unsigned_0)
      show ?thesis
        unfolding unf ih off1 by (simp add: lh0 m interleave_spec_Suc_0 algebra_simps)
    next
      case lh: False
      then obtain n where n: "unat lh = Suc n" "unat (lh - 1) = n"
        using unat_minus_one[OF lh] unat_gt_0[of lh] by (cases "unat lh") auto
      have sc1: "unat (sc + 1) < 32" using less.prems(1) m n by (simp add: unat_succ[OF sc])
      obtain off2 where st2: "axis_block ub y lh off1 (sc + 1) = (drop_bit 1 y, lh - 1, off2, sc + 1 + 1)"
        and off2: "unat off2 = unat off1 + 2 ^ unat (sc + 1) * (unat y mod 2)"
        using axis_block_step[OF lh sc1 b1] by blast
      have b2: "unat off2 < 2 ^ unat (sc + 1 + 1)"
        using next_bound[OF off2 b1] by (simp only: unat_succ[OF sc1])
      have unf: "l2s_loop ub x y z lw lh 0 off sc =
                 l2s_loop ub (drop_bit 1 x) (drop_bit 1 y) z (lw - 1) (lh - 1) 0 off2 (sc + 1 + 1)"
        using lw lh st1 st2
        by (simp add: l2s_loop.simps[of ub x y z lw lh] axis_block_done or_eq_0_iff)
      have "unat (l2s_loop ub (drop_bit 1 x) (drop_bit 1 y) z (lw - 1) (lh - 1) 0 off2 (sc + 1 + 1)) =
            unat off2 + 2 ^ unat (sc + 1 + 1) *
              interleave_spec (unat (drop_bit 1 x)) (unat (drop_bit 1 y)) (unat (lw - 1)) (unat (lh - 1))"
      proof (rule less.hyps[OF _ _ b2])
        show "unat (lw - 1) + unat (lh - 1) < unat lw + unat lh"
          unfolding m n by simp
        show "unat (lw - 1) + unat (lh - 1) + unat (sc + 1 + 1) \<le> 32"
          using less.prems(1) unfolding m n unat_succ[OF sc1] unat_succ[OF sc] by linarith
      qed
      then have ih: "unat (l2s_loop ub (drop_bit 1 x) (drop_bit 1 y) z (lw - 1) (lh - 1) 0 off2 (sc + 1 + 1)) =
            unat off2 + 2 ^ Suc (Suc (unat sc)) * interleave_spec (unat x div 2) (unat y div 2) m n"
        by (simp only: unat_succ[OF sc1] unat_succ[OF sc] unat_half m n)
      have o2: "unat off2 = unat off + 2 ^ unat sc * (unat x mod 2) + 2 ^ Suc (unat sc) * (unat y mod 2)"
        using off2 off1 by (simp only: unat_succ[OF sc])
      show ?thesis
        unfolding unf ih o2 by (simp add: m n interleave_spec_Suc_Suc algebra_simps)
    qed
  qed
qed



lemma budget_induct [case_names zero x_only y_only both]:
  assumes "P 0 0"
    and "\<And>nx. P nx 0 \<Longrightarrow> P (Suc nx) 0"
    and "\<And>ny. P 0 ny \<Longrightarrow> P 0 (Suc ny)"
    and "\<And>nx ny. P nx ny \<Longrightarrow> P (Suc nx) (Suc ny)"
  shows "P (nx::nat) (ny::nat)"
proof (induction nx arbitrary: ny)
  case 0
  show ?case by (induction ny) (simp_all add: assms)
next
  case (Suc nx)
  show ?case by (cases ny) (simp_all add: assms Suc)
qed

lemma interleave_spec_less: "interleave_spec x y nx ny < 2 ^ (nx + ny)"
proof (induction nx ny arbitrary: x y rule: budget_induct)
  case zero
  show ?case by (simp add: interleave_spec_0_0)
next
  case (x_only nx)
  have "x mod 2 + 2 * interleave_spec (x div 2) y nx 0 < 2 + 2 * interleave_spec (x div 2) y nx 0"
    by simp
  with x_only[of "x div 2" y] show ?case by (simp add: interleave_spec_Suc_0)
next
  case (y_only ny)
  have "y mod 2 + 2 * interleave_spec x (y div 2) 0 ny < 2 + 2 * interleave_spec x (y div 2) 0 ny"
    by simp
  with y_only[of x "y div 2"] show ?case by (simp add: interleave_spec_0_Suc)
next
  case (both nx ny)
  have "x mod 2 < 2" "y mod 2 < 2" by simp_all
  with both[of "x div 2" "y div 2"] show ?case by (simp add: interleave_spec_Suc_Suc)
qed

lemma linear_to_swizzle_nat:
  assumes "unat nx + unat ny \<le> 32"
  shows "unat (linear_to_swizzle ub x y z nx ny 0) =
         interleave_spec (unat x) (unat y) (unat nx) (unat ny)"
  using l2s_loop_nat[of nx ny 0 0 ub x y z] assms by (simp add: linear_to_swizzle_def)

lemma tb_step:
  fixes x x' :: u32
  assumes "take_bit (Suc m) x = take_bit (Suc m) x'"
  shows "x AND 1 = x' AND 1" "take_bit m (drop_bit 1 x) = take_bit m (drop_bit 1 x')"
proof -
  have b: "k < Suc m \<Longrightarrow> bit x k = bit x' k" for k
    using assms by (metis bit_take_bit_iff)
  show "x AND 1 = x' AND 1"
    using b[of 0] by (intro bit_eqI) (auto simp: bit_and_iff bit_1_iff)
  show "take_bit m (drop_bit 1 x) = take_bit m (drop_bit 1 x')"
    by (rule bit_eqI) (auto simp: bit_take_bit_iff bit_drop_bit_eq b)
qed


lemma axis_block_cong:
  fixes c c' :: u32
  assumes "take_bit (unat budget) c = take_bit (unat budget) c'"
  shows "\<exists>d d' b o' s'. axis_block ub c budget off sc = (d, b, o', s')
           \<and> axis_block ub c' budget off sc = (d', b, o', s')
           \<and> take_bit (unat b) d = take_bit (unat b) d'
           \<and> unat b = unat budget - 1 \<and> (budget = 0 \<longrightarrow> d = c \<and> d' = c')"
proof (cases "budget = 0")
  case True
  then show ?thesis using assms by (simp add: axis_block_def)
next
  case False
  then obtain m where m: "unat budget = Suc m" "unat (budget - 1) = m"
    using unat_minus_one[OF False] unat_gt_0[of budget] by (cases "unat budget") auto
  from tb_step[OF assms[unfolded m]] False m show ?thesis
    by (simp add: axis_block_def)
qed


lemma l2s_loop_cong:
  assumes "take_bit (unat lw) x = take_bit (unat lw) x'"
    and "take_bit (unat lh) y = take_bit (unat lh) y'"
  shows "l2s_loop ub x y z lw lh 0 off sc = l2s_loop ub x' y' z lw lh 0 off sc"
  using assms
proof (induction "unat lw + unat lh" arbitrary: x x' y y' lw lh off sc rule: less_induct)
  case less
  show ?case
  proof (cases "lw = 0 \<and> lh = 0")
    case True
    then show ?thesis
      by (simp add: l2s_loop.simps[of ub _ _ z 0 0])
  next
    case False
    then have nz: "(lw OR lh OR 0) \<noteq> 0" by (simp add: or_eq_0_iff)
    obtain d d' b o1 s1 where
      a1: "axis_block ub x lw off sc = (d, b, o1, s1)"
      and a2: "axis_block ub x' lw off sc = (d', b, o1, s1)"
      and a3: "take_bit (unat b) d = take_bit (unat b) d'"
      and a4: "unat b = unat lw - 1"
      using axis_block_cong[OF less.prems(1), of ub off sc] by blast
    obtain e e' c o2 s2 where
      b1: "axis_block ub y lh o1 s1 = (e, c, o2, s2)"
      and b2: "axis_block ub y' lh o1 s1 = (e', c, o2, s2)"
      and b3: "take_bit (unat c) e = take_bit (unat c) e'"
      and b4: "unat c = unat lh - 1"
      using axis_block_cong[OF less.prems(2), of ub o1 s1] by blast
    have pos: "0 < unat lw \<or> 0 < unat lh"
      using False by (simp add: unat_gt_0)
    have dec: "unat b + unat c < unat lw + unat lh"
      using a4 b4 pos by linarith
    have l: "l2s_loop ub x y z lw lh 0 off sc = l2s_loop ub d e z b c 0 o2 s2"
      using nz by (simp add: l2s_loop.simps[of ub x y z lw lh] a1 b1 axis_block_done)
    have r: "l2s_loop ub x' y' z lw lh 0 off sc = l2s_loop ub d' e' z b c 0 o2 s2"
      using nz by (simp add: l2s_loop.simps[of ub x' y' z lw lh] a2 b2 axis_block_done)
    show ?thesis
      unfolding l r by (rule less.hyps[OF dec a3 b3])
  qed
qed

lemma linear_to_swizzle_take_bit:
  "linear_to_swizzle ub x y 0 nx ny 0 =
   linear_to_swizzle ub (take_bit (unat nx) x) (take_bit (unat ny) y) 0 nx ny 0"
  unfolding linear_to_swizzle_def
  by (rule l2s_loop_cong) simp_all

lemma linear_to_swizzle_bound:
  "unat (linear_to_swizzle ub x y 0 nx ny 0) < 2 ^ (unat nx + unat ny)"
proof (cases "unat nx + unat ny \<le> 32")
  case True
  then show ?thesis
    by (simp only: linear_to_swizzle_nat interleave_spec_less)
next
  case False
  then have "(2::nat) ^ 32 \<le> 2 ^ (unat nx + unat ny)"
    by (intro power_increasing) simp_all
  moreover have "unat (linear_to_swizzle ub x y 0 nx ny 0) < 2 ^ LENGTH(32)"
    by (rule unsigned_less)
  ultimately show ?thesis by simp
qed

lemma take_bit_eq_of_mod:
  fixes x x' :: u32
  assumes "unat x mod 2 ^ n = unat x' mod 2 ^ n"
  shows "take_bit n x = take_bit n x'"
proof -
  have u: "unat (take_bit n w) = unat w mod 2 ^ n" for w :: u32
    using unsigned_take_bit_eq[of n w, where ?'a = nat] take_bit_eq_mod[of n "unat w"] by simp
  have "unat (take_bit n x) = unat (take_bit n x')"
    using assms by (simp only: u)
  then show ?thesis by (simp only: word_unat_eq_iff)
qed

lemma mod_pow2_Suc: "(x::nat) mod 2 ^ Suc n = x mod 2 + 2 * ((x div 2) mod 2 ^ n)"
  by (simp add: mod_mult2_eq)

lemma split_bit0:
  assumes "(a::nat) mod 2 + 2 * p = b mod 2 + 2 * q"
  shows "a mod 2 = b mod 2 \<and> p = q"
proof -
  have "(a mod 2 + 2 * p) mod 2 = (b mod 2 + 2 * q) mod 2" using assms by simp
  then have "a mod 2 = b mod 2" by simp
  with assms show ?thesis by simp
qed

lemma split_bit01:
  assumes "(a::nat) mod 2 + 2 * (c mod 2) + 4 * p = b mod 2 + 2 * (d mod 2) + 4 * q"
  shows "a mod 2 = b mod 2 \<and> c mod 2 = d mod 2 \<and> p = q"
proof -
  have "a mod 2 + 2 * (c mod 2 + 2 * p) = b mod 2 + 2 * (d mod 2 + 2 * q)"
    using assms by simp
  then have "a mod 2 = b mod 2 \<and> c mod 2 + 2 * p = d mod 2 + 2 * q"
    by (rule split_bit0)
  then show ?thesis using split_bit0[of c p d q] by simp
qed

lemma interleave_spec_inj:
  "interleave_spec x y nx ny = interleave_spec x' y' nx ny \<Longrightarrow>
   x mod 2 ^ nx = x' mod 2 ^ nx \<and> y mod 2 ^ ny = y' mod 2 ^ ny"
proof (induction nx ny arbitrary: x y x' y' rule: budget_induct)
  case zero
  show ?case by simp
next
  case (x_only nx)
  from x_only.prems have "x mod 2 = x' mod 2 \<and>
      interleave_spec (x div 2) y nx 0 = interleave_spec (x' div 2) y' nx 0"
    unfolding interleave_spec_Suc_0 by (rule split_bit0)
  with x_only.IH[of "x div 2" y "x' div 2" y'] show ?case
    by (simp add: mod_pow2_Suc del: power_Suc)
next
  case (y_only ny)
  from y_only.prems have "y mod 2 = y' mod 2 \<and>
      interleave_spec x (y div 2) 0 ny = interleave_spec x' (y' div 2) 0 ny"
    unfolding interleave_spec_0_Suc by (rule split_bit0)
  with y_only.IH[of x "y div 2" x' "y' div 2"] show ?case
    by (simp add: mod_pow2_Suc del: power_Suc)
next
  case (both nx ny)
  from both.prems have "x mod 2 = x' mod 2 \<and> y mod 2 = y' mod 2 \<and>
      interleave_spec (x div 2) (y div 2) nx ny = interleave_spec (x' div 2) (y' div 2) nx ny"
    unfolding interleave_spec_Suc_Suc by (rule split_bit01)
  with both.IH[of "x div 2" "y div 2" "x' div 2" "y' div 2"] show ?case
    by (simp add: mod_pow2_Suc del: power_Suc)
qed

lemma interleave_spec_bij:
  "bij_betw (\<lambda>(x, y). interleave_spec x y nx ny) ({..<2 ^ nx} \<times> {..<2 ^ ny}) {..<2 ^ (nx + ny)}"
proof -
  let ?f = "\<lambda>(x, y). interleave_spec x y nx ny"
  let ?D = "{..<(2::nat) ^ nx} \<times> {..<(2::nat) ^ ny}"
  have inj: "inj_on ?f ?D"
  proof (rule inj_onI)
    fix p q assume p: "p \<in> ?D" and q: "q \<in> ?D" and e: "?f p = ?f q"
    obtain x y where pxy: "p = (x, y)" by (cases p)
    obtain x' y' where qxy: "q = (x', y')" by (cases q)
    from e interleave_spec_inj[of x y nx ny x' y']
    have "x mod 2 ^ nx = x' mod 2 ^ nx \<and> y mod 2 ^ ny = y' mod 2 ^ ny"
      by (simp add: pxy qxy)
    with p q show "p = q" by (simp add: pxy qxy)
  qed
  have sub: "?f ` ?D \<subseteq> {..<2 ^ (nx + ny)}"
    by (auto simp: interleave_spec_less)
  have "card (?f ` ?D) = card ?D" using inj by (rule card_image)
  also have "\<dots> = 2 ^ (nx + ny)" by (simp add: power_add)
  finally have "card (?f ` ?D) = card {..<(2::nat) ^ (nx + ny)}" by simp
  with sub have "?f ` ?D = {..<2 ^ (nx + ny)}"
    by (intro card_subset_eq) simp_all
  with inj show ?thesis by (simp add: bij_betw_def)
qed

lemma ilog2_pow2: "ilog2 (2 ^ k) = k"
proof (induction k)
  case 0
  show ?case by (simp add: ilog2.simps[of "Suc 0"])
next
  case (Suc k)
  have "\<not> (2::nat) ^ Suc k < 2" by simp
  then show ?case using Suc by (simp add: ilog2.simps[of "2 ^ Suc k"] del: power_Suc) simp
qed


lemma unat_of_nat_u32: "n < 2 ^ 32 \<Longrightarrow> unat (word_of_nat n :: u32) = n"
  by (simp add: unat_of_nat)

lemma pow2_le_32: "n \<le> 32 \<Longrightarrow> x < 2 ^ n \<Longrightarrow> x < (2::nat) ^ 32"
proof -
  assume "n \<le> 32" "x < 2 ^ n"
  moreover from \<open>n \<le> 32\<close> have "(2::nat) ^ n \<le> 2 ^ 32" by (intro power_increasing) simp_all
  ultimately show ?thesis by linarith
qed

section \<open>The masked subtraction and the transcoders\<close>

text \<open>
  The step \<open>(offs - mask) AND mask\<close> increments the number spread over the set bits of
  \<open>mask\<close> (\<open>dep_step_int\<close>, \<open>masked_step_word\<close>).  For the masks fastSwizzle builds,
  that number spread out is an interleaved address (\<open>dep_xmask\<close>, \<open>dep_ymask\<close>,
  \<open>index_identity\<close>).  Each loop of either transcoder is then the list of copies
  \<open>copy_all\<close> performs on the index pairs it visits, and both transcoders visit
  \<open>all_pairs\<close>.
\<close>

lemma dep_0: "dep 0 k = 0"
  by (simp add: dep.simps)

lemma dep_even: "dep (2 * M) k = 2 * dep M k"
  by (cases "M = 0") (simp_all add: dep.simps[of "2 * M"] dep_0)

lemma dep_odd: "dep (Suc (2 * M)) k = k mod 2 + 2 * dep M (k div 2)"
  by (simp add: dep.simps[of "Suc (2 * M)"])

lemma and_int_2_2: "(2 * a) AND (2 * b) = 2 * (a AND (b::int))"
  by (simp add: and_int_rec[of "2 * a" "2 * b"])

lemma and_int_2_3: "(2 * a) AND (1 + 2 * b) = 2 * (a AND (b::int))"
  by (simp add: and_int_rec[of "2 * a" "1 + 2 * b"])

lemma and_int_3_2: "(1 + 2 * a) AND (2 * b) = 2 * (a AND (b::int))"
  by (simp add: and_int_rec[of "1 + 2 * a" "2 * b"])

lemma and_int_3_3: "(1 + 2 * a) AND (1 + 2 * b) = 1 + 2 * (a AND (b::int))"
  by (simp add: and_int_rec[of "1 + 2 * a" "1 + 2 * b"])

lemma nat_parity_cases:
  fixes M :: nat
  obtains (zero) "M = 0" | (even) N where "M = 2 * N" "N \<noteq> 0" | (odd) N where "M = Suc (2 * N)"
proof (cases "M = 0")
  case True then show ?thesis by (rule zero)
next
  case nz: False
  show ?thesis
  proof (cases "even M")
    case True
    then obtain N where "M = 2 * N" by (elim evenE)
    with nz show ?thesis by (intro even[of N]) simp_all
  next
    case False
    then obtain N where "M = Suc (2 * N)" by (elim oddE) simp
    then show ?thesis by (rule odd)
  qed
qed

lemma dep_step_int:
  "(int (dep M k) - int M) AND int M = int (dep M (Suc k)) \<and>
   (int (dep M k) - int M - 1) AND int M = int (dep M k)"
proof (induction M arbitrary: k rule: less_induct)
  case (less M)
  show ?case
  proof (cases M rule: nat_parity_cases)
    case zero
    then show ?thesis by (simp add: dep_0)
  next
    case (even N)
    then have "N < M" by simp
    note ih = less.IH[OF this, of k]
    have a: "int (dep M k) - int M = 2 * (int (dep N k) - int N)"
      by (simp add: even dep_even)
    have b: "int (dep M k) - int M - 1 = 1 + 2 * (int (dep N k) - int N - 1)"
      by (simp add: even dep_even)
    have m: "int M = 2 * int N" by (simp add: even)
    have "(int (dep M k) - int M) AND int M = 2 * ((int (dep N k) - int N) AND int N)"
      by (simp only: a) (simp only: m and_int_2_2)
    moreover have "(int (dep M k) - int M - 1) AND int M = 2 * ((int (dep N k) - int N - 1) AND int N)"
      by (simp only: b) (simp only: m and_int_3_2)
    ultimately show ?thesis
      using ih by (simp add: even dep_even)
  next
    case (odd N)
    then have "N < M" by simp
    note ih = less.IH[OF this, of "k div 2"]
    have m: "int M = 1 + 2 * int N" by (simp add: odd)
    show ?thesis
    proof (cases "even k")
      case True
      then have k2: "k mod 2 = 0" "Suc k mod 2 = 1" "Suc k div 2 = k div 2" by auto
      have a: "int (dep M k) - int M = 1 + 2 * (int (dep N (k div 2)) - int N - 1)"
        by (simp add: odd dep_odd k2)
      have b: "int (dep M k) - int M - 1 = 2 * (int (dep N (k div 2)) - int N - 1)"
        by (simp add: odd dep_odd k2)
      have "(int (dep M k) - int M) AND int M = 1 + 2 * ((int (dep N (k div 2)) - int N - 1) AND int N)"
        by (simp only: a) (simp only: m and_int_3_3)
      moreover have "(int (dep M k) - int M - 1) AND int M = 2 * ((int (dep N (k div 2)) - int N - 1) AND int N)"
        by (simp only: b) (simp only: m and_int_2_3)
      ultimately show ?thesis
        using ih by (simp add: odd dep_odd k2)
    next
      case False
      then have k2: "k mod 2 = 1" "Suc k mod 2 = 0" "Suc k div 2 = Suc (k div 2)"
        by (auto simp: mod2_eq_if elim: oddE)
      have a: "int (dep M k) - int M = 2 * (int (dep N (k div 2)) - int N)"
        by (simp add: odd dep_odd k2)
      have b: "int (dep M k) - int M - 1 = 1 + 2 * (int (dep N (k div 2)) - int N - 1)"
        by (simp add: odd dep_odd k2)
      have "(int (dep M k) - int M) AND int M = 2 * ((int (dep N (k div 2)) - int N) AND int N)"
        by (simp only: a) (simp only: m and_int_2_3)
      moreover have "(int (dep M k) - int M - 1) AND int M = 1 + 2 * ((int (dep N (k div 2)) - int N - 1) AND int N)"
        by (simp only: b) (simp only: m and_int_3_3)
      ultimately show ?thesis
        using ih by (simp add: odd dep_odd k2)
    qed
  qed
qed

lemma and_take_bit_uint: "take_bit 32 a AND uint (M::u32) = a AND uint M"
proof (rule bit_eqI)
  fix n
  have "bit (uint M) n \<Longrightarrow> n < 32"
    using bit_uint_iff[of M n] by simp
  then show "bit (take_bit 32 a AND uint M) n = bit (a AND uint M) n"
    by (auto simp: bit_and_iff bit_take_bit_iff)
qed

lemma masked_step_word:
  fixes off M :: u32
  assumes "unat off = dep (unat M) k"
  shows "unat ((off - M) AND M) = dep (unat M) (Suc k)"
proof -
  have m: "uint M = int (unat M)" by simp
  have "uint off = int (unat off)" by simp
  then have o: "uint off = int (dep (unat M) k)" by (simp only: assms)
  have "uint ((off - M) AND M) = uint (off - M) AND uint M"
    by (rule uint_and)
  also have "uint (off - M) = take_bit 32 (uint off - uint M)"
    by (simp only: uint_word_ariths take_bit_eq_mod) simp
  also have "take_bit 32 (uint off - uint M) AND uint M = (uint off - uint M) AND uint M"
    by (rule and_take_bit_uint)
  also have "\<dots> = int (dep (unat M) (Suc k))"
    unfolding o m using dep_step_int[of "unat M" k] by blast
  finally have f: "uint ((off - M) AND M) = int (dep (unat M) (Suc k))" .
  have "unat ((off - M) AND M) = nat (uint ((off - M) AND M))"
    by (rule unat_eq_nat_uint)
  also have "\<dots> = dep (unat M) (Suc k)"
    unfolding f by (rule nat_int)
  finally show ?thesis .
qed

lemma interleave_spec_x_only: "interleave_spec x y n 0 = x mod 2 ^ n"
  by (induction n arbitrary: x) (simp_all add: interleave_spec_0_0 interleave_spec_Suc_0 mod_pow2_Suc del: power_Suc)

lemma interleave_spec_y_only: "interleave_spec x y 0 n = y mod 2 ^ n"
  by (induction n arbitrary: y) (simp_all add: interleave_spec_0_0 interleave_spec_0_Suc mod_pow2_Suc del: power_Suc)

lemma dep_ones: "dep (2 ^ e - 1) k = k mod 2 ^ e"
proof (induction e arbitrary: k)
  case 0
  show ?case by (simp add: dep_0)
next
  case (Suc e)
  obtain p where p: "(2::nat) ^ e = Suc p"
    by (cases "(2::nat) ^ e") simp_all
  have "(2::nat) ^ Suc e - 1 = Suc (2 * (2 ^ e - 1))"
    by (simp add: p)
  then show ?case
    by (simp only: dep_odd Suc mod_pow2_Suc)
qed

lemma dep_xmask: "dep (xmask_nat e m) k = interleave_spec k 0 (m + e) m"
proof (induction m arbitrary: k)
  case 0
  show ?case using dep_ones[of e k] by (simp add: interleave_spec_x_only)
next
  case (Suc m)
  have "xmask_nat e (Suc m) = Suc (2 * (2 * xmask_nat e m))" by simp
  then have "dep (xmask_nat e (Suc m)) k = k mod 2 + 2 * (2 * dep (xmask_nat e m) (k div 2))"
    by (simp only: dep_odd dep_even)
  then show ?case
    by (simp add: Suc interleave_spec_Suc_Suc)
qed

lemma dep_ymask: "dep (ymask_nat m) k = interleave_spec 0 k m m"
proof (induction m arbitrary: k)
  case 0
  show ?case by (simp add: dep_0 interleave_spec_0_0)
next
  case (Suc m)
  have "ymask_nat (Suc m) = 2 * Suc (2 * ymask_nat m)" by simp
  then have "dep (ymask_nat (Suc m)) k = 2 * (k mod 2 + 2 * dep (ymask_nat m) (k div 2))"
    by (simp only: dep_odd dep_even)
  then show ?case
    by (simp add: Suc interleave_spec_Suc_Suc)
qed

lemma y_lane_zero_iff: "interleave_spec 0 k m m = 0 \<longleftrightarrow> k mod 2 ^ m = 0"
  by (induction m arbitrary: k) (simp_all add: interleave_spec_0_0 interleave_spec_Suc_Suc mod_pow2_Suc del: power_Suc)

lemma x_lane_high: "interleave_spec (c * 2 ^ m) 0 (m + e) m = 4 ^ m * (c mod 2 ^ e)"
proof (induction m)
  case 0
  show ?case by (simp add: interleave_spec_x_only)
next
  case (Suc m)
  have "c * 2 ^ Suc m div 2 = c * 2 ^ m" by simp
  moreover have "c * 2 ^ Suc m mod 2 = 0" by simp
  ultimately show ?case
    using Suc by (simp add: interleave_spec_Suc_Suc del: power_Suc) simp
qed

lemma index_identity:
  assumes "dx = 0 \<or> dy = 0" "x < 2 ^ (m + dx)" "y < 2 ^ (m + dy)" "dx \<le> e" "dy \<le> e"
  shows "interleave_spec 0 y m m + interleave_spec ((y div 2 ^ m) * 2 ^ m + x) 0 (m + e) m
         = interleave_spec x y (m + dx) (m + dy)"
  using assms(2,3)
proof (induction m arbitrary: x y)
  case 0
  have le: "(2::nat) ^ dx \<le> 2 ^ e" "(2::nat) ^ dy \<le> 2 ^ e"
    using assms(4,5) by (simp_all add: power_increasing)
  from assms(1) show ?case
  proof
    assume dx: "dx = 0"
    with 0 have "x = 0" by simp
    moreover have "y < 2 ^ e" using 0(2) le(2) by (simp only: add_0)
    ultimately show ?thesis using 0 dx
      by (simp add: interleave_spec_0_0 interleave_spec_x_only interleave_spec_y_only)
  next
    assume dy: "dy = 0"
    with 0 have "y = 0" by simp
    moreover have "x < 2 ^ e" using 0(1) le(1) by (simp only: add_0)
    ultimately show ?thesis using 0 dy
      by (simp add: interleave_spec_0_0 interleave_spec_x_only interleave_spec_y_only)
  qed
next
  case (Suc m)
  let ?k = "(y div 2 ^ Suc m) * 2 ^ Suc m + x"
  have k2: "?k div 2 = ((y div 2) div 2 ^ m) * 2 ^ m + x div 2"
    by (simp add: div_mult2_eq)
  have e2: "(y div 2 ^ Suc m) * 2 ^ Suc m = 2 * ((y div 2 ^ Suc m) * 2 ^ m)" by simp
  have k1: "?k mod 2 = x mod 2" by (simp only: e2) simp
  have x2: "x div 2 < 2 ^ (m + dx)" and y2: "y div 2 < 2 ^ (m + dy)"
    using Suc.prems by simp_all
  have "interleave_spec 0 y (Suc m) (Suc m) + interleave_spec ?k 0 (Suc (m + e)) (Suc m) =
        x mod 2 + 2 * (y mod 2) +
        4 * (interleave_spec 0 (y div 2) m m
             + interleave_spec (((y div 2) div 2 ^ m) * 2 ^ m + x div 2) 0 (m + e) m)"
    by (simp only: interleave_spec_Suc_Suc k2 k1) simp
  also have "\<dots> = x mod 2 + 2 * (y mod 2) + 4 * interleave_spec (x div 2) (y div 2) (m + dx) (m + dy)"
    by (simp only: Suc.IH[OF x2 y2])
  also have "\<dots> = interleave_spec x y (Suc (m + dx)) (Suc (m + dy))"
    by (simp only: interleave_spec_Suc_Suc)
  finally show ?case by simp
qed

lemma copy_all_append:
  "copy_all swap src (ps @ qs) dst =
     (case copy_all swap src ps dst of None \<Rightarrow> None | Some d \<Rightarrow> copy_all swap src qs d)"
  by (induction ps arbitrary: dst) (auto split: option.splits)

lemma fast_cols_copy_all:
  assumes "unat offs_x = dep (unat x_mask) (k + nat x)" "0 \<le> x" "x \<le> width"
  shows "fast_cols src width swap x_mask row offs_y x offs_x dst =
         copy_all swap src
           (map (\<lambda>i. (row + i, offs_y + dep (unat x_mask) (k + i))) [nat x..<nat width]) dst"
  using assms
proof (induction "nat (width - x)" arbitrary: x offs_x dst)
  case 0
  then have "x = width" by simp
  then show ?case by (simp add: fast_cols.simps[of _ width _ _ _ _ width])
next
  case (Suc n)
  then have lt: "x < width" by simp
  let ?o = "(offs_x - x_mask) AND x_mask"
  have nx: "nat (x + 1) = Suc (nat x)" using Suc.prems(2) by simp
  have o: "unat ?o = dep (unat x_mask) (k + nat (x + 1))"
    using masked_step_word[OF Suc.prems(1)] by (simp add: nx)
  have ih: "fast_cols src width swap x_mask row offs_y (x + 1) ?o d =
         copy_all swap src
           (map (\<lambda>i. (row + i, offs_y + dep (unat x_mask) (k + i))) [Suc (nat x)..<nat width]) d" for d
    using Suc.hyps(1)[of "x + 1" ?o d] Suc.hyps(2) o Suc.prems(2) lt by (simp add: nx)
  have upt: "[nat x..<nat width] = nat x # [Suc (nat x)..<nat width]"
    using lt Suc.prems(2) by (intro upt_conv_Cons) simp
  show ?case
    unfolding upt
    by (subst fast_cols.simps) (simp add: lt ih Suc.prems(1) cong: option.case_cong)
qed

lemma pow4_split: "2 * m + e = 32 \<Longrightarrow> (2::nat) ^ 32 = 4 ^ m * 2 ^ e"
proof -
  assume "2 * m + e = 32"
  then have "(2::nat) ^ 32 = 2 ^ (2 * m + e)" by simp
  also have "\<dots> = 4 ^ m * 2 ^ e" by (simp add: power_add power_mult)
  finally show ?thesis .
qed

lemma x_lane_high_mod:
  assumes "2 * m + e = 32"
  shows "interleave_spec (c * 2 ^ m) 0 (m + e) m = (4 ^ m * c) mod 2 ^ 32"
  unfolding x_lane_high pow4_split[OF assms] by (rule mult_mod_right)

lemma fast_rows_copy_all:
  fixes width height y :: int
  assumes xm: "unat x_mask = xmask_nat e m" and ym: "unat y_mask = ymask_nat m"
    and yi: "unat y_incr = 4 ^ m" and me: "2 * m + e = 32"
    and w0: "0 \<le> width" and wh: "height * width < 2 ^ 31"
    and oy: "unat offs_y = interleave_spec 0 (nat y) m m"
    and ox: "unat offs_x0 = (4 ^ m * (nat y div 2 ^ m)) mod 2 ^ 32"
    and y0: "0 \<le> y" and yh: "y \<le> height"
  shows "fast_rows src width height swap x_mask y_mask y_incr y offs_y offs_x0 dst =
         copy_all swap src (concat (map (fast_row_pairs (nat width) e m) [nat y..<nat height])) dst"
  using oy ox y0 yh
proof (induction "nat (height - y)" arbitrary: y offs_y offs_x0 dst)
  case 0
  then have "y = height" by simp
  then show ?case by (simp add: fast_rows.simps[of _ _ height _ _ _ _ height])
next
  case (Suc n)
  then have lt: "y < height" by simp
  have ny: "nat (y + 1) = Suc (nat y)" using Suc.prems(3) by simp
  have "y * width \<le> height * width"
    using lt w0 by (intro mult_right_mono) simp_all
  moreover have "0 \<le> y * width"
    using Suc.prems(3) w0 by (rule mult_nonneg_nonneg)
  ultimately have g: "\<not> (y * width < 0 \<or> 2 ^ 31 \<le> y * width)"
    using wh by linarith
  have row: "nat (y * width) = nat y * nat width"
    using Suc.prems(3) by (simp add: nat_mult_distrib)
  let ?k = "(nat y div 2 ^ m) * 2 ^ m"
  have k: "unat offs_x0 = dep (unat x_mask) (?k + nat 0)"
    using Suc.prems(2) by (simp add: xm dep_xmask x_lane_high_mod[OF me])
  have cols: "fast_cols src width swap x_mask (nat (y * width)) (unat offs_y) 0 offs_x0 d =
              copy_all swap src (fast_row_pairs (nat width) e m (nat y)) d" for d
    using fast_cols_copy_all[OF k _ w0, of src swap "nat (y * width)" "unat offs_y" d]
    by (simp add: fast_row_pairs_def row xm dep_xmask Suc.prems(1))
  let ?oy = "(offs_y - y_mask) AND y_mask"
  let ?ox = "if ?oy = 0 then offs_x0 + y_incr else offs_x0"
  have "unat offs_y = dep (unat y_mask) (nat y)"
    using Suc.prems(1) by (simp add: ym dep_ymask)
  from masked_step_word[OF this]
  have oy': "unat ?oy = interleave_spec 0 (nat (y + 1)) m m"
    by (simp add: ym dep_ymask ny)
  have z: "?oy = 0 \<longleftrightarrow> Suc (nat y) mod 2 ^ m = 0"
    using oy' by (simp add: unat_eq_0[symmetric] y_lane_zero_iff ny)
  have ox': "unat ?ox = (4 ^ m * (nat (y + 1) div 2 ^ m)) mod 2 ^ 32"
  proof (cases "?oy = 0")
    case True
    then have d: "Suc (nat y) div 2 ^ m = Suc (nat y div 2 ^ m)"
      using z by (simp add: div_Suc)
    have "unat (offs_x0 + y_incr) = (unat offs_x0 + unat y_incr) mod 2 ^ 32"
      by (simp add: unat_word_ariths)
    also have "\<dots> = (4 ^ m * (nat y div 2 ^ m) + 4 ^ m) mod 2 ^ 32"
      unfolding Suc.prems(2) yi by (rule mod_add_left_eq)
    finally have f: "unat (offs_x0 + y_incr) = (4 ^ m * (nat y div 2 ^ m) + 4 ^ m) mod 2 ^ 32" .
    have "4 ^ m * (nat y div 2 ^ m) + 4 ^ m = (4::nat) ^ m * (nat (y + 1) div 2 ^ m)"
      by (simp only: ny d) simp
    with f True show ?thesis by simp
  next
    case False
    then have d: "Suc (nat y) div 2 ^ m = nat y div 2 ^ m"
      using z by (simp add: div_Suc)
    show ?thesis using False Suc.prems(2) by (simp add: ny d)
  qed
  have ih: "fast_rows src width height swap x_mask y_mask y_incr (y + 1) ?oy ?ox d =
         copy_all swap src (concat (map (fast_row_pairs (nat width) e m) [Suc (nat y)..<nat height])) d" for d
    using Suc.hyps(1)[of "y + 1" ?oy ?ox d] Suc.hyps(2) oy' ox' Suc.prems(3) lt
    by (simp add: ny)
  have upt: "[nat y..<nat height] = nat y # [Suc (nat y)..<nat height]"
    using lt Suc.prems(3) by (intro upt_conv_Cons) simp
  show ?case
    unfolding upt using g
    by (subst fast_rows.simps)
       (simp add: lt cols ih copy_all_append Let_def cong: option.case_cong)
qed

lemma unat_ucast_16_32: "unat (ucast (v :: u16) :: u32) = unat v"
proof -
  have "unat v < 2 ^ LENGTH(16)" by (rule unsigned_less)
  then have "unat v < 2 ^ 32" by simp
  then have "take_bit 32 (unat v) = unat v" by (rule take_bit_nat_eq_self)
  then show ?thesis
    using unsigned_ucast_eq[of v, where ?'a = nat and ?'c = 32] by simp
qed

lemma int_prod_u16:
  fixes y width :: u16
  assumes "unat y * unat width < 2 ^ 31"
  shows "uint y * uint width < 2 ^ 31"
    and "unat (word_of_int (uint y * uint width) :: u32) = unat y * unat width"
proof -
  have p: "uint y * uint width = int (unat y * unat width)" by simp
  have "int (unat y * unat width) < int (2 ^ 31)"
    using assms by (simp only: of_nat_less_iff)
  then show "uint y * uint width < 2 ^ 31" by (simp only: p) simp
  have "unat (ucast y :: u32) * unat (ucast width :: u32) < 2 ^ LENGTH(32)"
    using assms by (simp add: unat_ucast_16_32)
  then have "unat (ucast y * ucast width :: u32) = unat (ucast y :: u32) * unat (ucast width :: u32)"
    by (simp only: unat_mult_lem)
  then have "unat (ucast y * ucast width :: u32) = unat y * unat width"
    by (simp only: unat_ucast_16_32)
  then show "unat (word_of_int (uint y * uint width) :: u32) = unat y * unat width"
    by simp
qed

lemma slow_cols_copy_all:
  assumes b: "unat log2Width + unat log2Height \<le> 32"
    and r: "unat rowStart + unat width \<le> 2 ^ 32"
    and x: "x \<le> width"
  shows "slow_cols ub src width swap log2Width log2Height y rowStart x dst =
         copy_all swap src
           (map (\<lambda>i. (unat rowStart + i, interleave_spec i (unat y) (unat log2Width) (unat log2Height)))
              [unat x..<unat width]) dst"
  using x
proof (induction "unat width - unat x" arbitrary: x dst)
  case 0
  then have "x = width" by (simp add: word_le_nat_alt word_unat_eq_iff)
  then show ?case by (simp add: slow_cols.simps[of _ _ width _ _ _ _ _ width])
next
  case (Suc n)
  then have lt: "x < width" by (simp add: word_less_nat_alt)
  have nx: "unat (x + 1) = Suc (unat x)" using lt by unat_arith
  have le: "x + 1 \<le> width" using lt by (rule inc_le)
  have swz: "unat (linear_to_swizzle ub (ucast x) (ucast y) 0 (ucast log2Width) (ucast log2Height) 0)
             = interleave_spec (unat x) (unat y) (unat log2Width) (unat log2Height)"
    using b by (simp add: linear_to_swizzle_nat unat_ucast_16_32)
  have "unat rowStart + unat (ucast x :: u32) < 2 ^ LENGTH(32)"
    using r lt by (simp add: unat_ucast_16_32 word_less_nat_alt)
  then have "unat (rowStart + ucast x) = unat rowStart + unat (ucast x :: u32)"
    by (simp only: unat_add_lem)
  then have lin: "unat (rowStart + ucast x) = unat rowStart + unat x"
    by (simp only: unat_ucast_16_32)
  have ih: "slow_cols ub src width swap log2Width log2Height y rowStart (x + 1) d =
         copy_all swap src
           (map (\<lambda>i. (unat rowStart + i, interleave_spec i (unat y) (unat log2Width) (unat log2Height)))
              [Suc (unat x)..<unat width]) d" for d
    using Suc.hyps(1)[of "x + 1" d] Suc.hyps(2) le by (simp add: nx)
  have upt: "[unat x..<unat width] = unat x # [Suc (unat x)..<unat width]"
    using lt by (intro upt_conv_Cons) (simp add: word_less_nat_alt)
  show ?case
    unfolding upt
    by (subst slow_cols.simps) (simp add: lt ih swz lin cong: option.case_cong)
qed

lemma slow_rows_copy_all:
  assumes b: "unat log2Width + unat log2Height \<le> 32"
    and wh: "unat height * unat width < 2 ^ 31"
    and y: "y \<le> height"
  shows "slow_rows ub src width height swap log2Width log2Height y dst =
         copy_all swap src
           (concat (map (row_pairs (unat width) (unat log2Width) (unat log2Height)) [unat y..<unat height]))
           dst"
  using y
proof (induction "unat height - unat y" arbitrary: y dst)
  case 0
  then have "y = height" by (simp add: word_le_nat_alt word_unat_eq_iff)
  then show ?case by (simp add: slow_rows.simps[of _ _ _ height _ _ _ height])
next
  case (Suc n)
  then have lt: "y < height" by (simp add: word_less_nat_alt)
  have ny: "unat (y + 1) = Suc (unat y)" using lt by unat_arith
  have le: "y + 1 \<le> height" using lt by (rule inc_le)
  have "Suc (unat y) \<le> unat height" using lt by (simp add: word_less_nat_alt)
  then have "Suc (unat y) * unat width \<le> unat height * unat width"
    by (rule mult_le_mono1)
  then have bound: "unat y * unat width + unat width < 2 ^ 31"
    using wh by simp
  have small: "unat y * unat width < 2 ^ 31" using bound by linarith
  have g: "\<not> 2 ^ 31 \<le> uint y * uint width"
    using int_prod_u16(1)[OF small] by simp
  have rs: "unat (word_of_int (uint y * uint width) :: u32) = unat y * unat width"
    by (rule int_prod_u16(2)[OF small])
  have r: "unat (word_of_int (uint y * uint width) :: u32) + unat width \<le> 2 ^ 32"
    unfolding rs using bound by simp
  have cols: "slow_cols ub src width swap log2Width log2Height y (ucast y * ucast width) 0 d =
              copy_all swap src (row_pairs (unat width) (unat log2Width) (unat log2Height) (unat y)) d" for d
    using slow_cols_copy_all[OF b r, of 0 ub src swap y d] rs
    by (simp add: row_pairs_def)
  have ih: "slow_rows ub src width height swap log2Width log2Height (y + 1) d =
         copy_all swap src
           (concat (map (row_pairs (unat width) (unat log2Width) (unat log2Height)) [Suc (unat y)..<unat height]))
           d" for d
    using Suc.hyps(1)[of "y + 1" d] Suc.hyps(2) le by (simp add: ny)
  have upt: "[unat y..<unat height] = unat y # [Suc (unat y)..<unat height]"
    using lt by (intro upt_conv_Cons) (simp add: word_less_nat_alt)
  show ?case
    unfolding upt using g
    by (subst slow_rows.simps) (simp add: lt cols ih copy_all_append cong: option.case_cong)
qed

lemma small_cases:
  "m \<le> 12 \<Longrightarrow> m = 0 \<or> m = 1 \<or> m = 2 \<or> m = 3 \<or> m = 4 \<or> m = 5 \<or> m = 6 \<or> m = 7 \<or> m = 8
     \<or> m = 9 \<or> m = 10 \<or> m = 11 \<or> m = (12::nat)"
  by arith

lemma xmask_nat_unfold: "0 < m \<Longrightarrow> xmask_nat e m = 1 + 4 * xmask_nat e (m - 1)"
  by (cases m) simp_all

lemma ymask_nat_unfold: "0 < m \<Longrightarrow> ymask_nat m = 2 + 4 * ymask_nat (m - 1)"
  by (cases m) simp_all

lemma fast_masks:
  assumes "m \<le> 12"
  shows "unat (0x555555 OR NOT (push_bit (2 * m) 1 - 1) :: u32) = xmask_nat (32 - 2 * m) m"
    and "unat (0xAAAAAA AND (push_bit (2 * m) 1 - 1) :: u32) = ymask_nat m"
    and "unat (push_bit (2 * m) 1 :: u32) = 4 ^ m"
  using small_cases[OF assms]
  by (elim disjE; simp add: xmask_nat_unfold ymask_nat_unfold unsigned_minus_1_eq_mask mask_eq_exp_minus_1)+

lemma pow2_u16:
  fixes width :: u16
  assumes "unat width = 2 ^ lw"
  shows "lw \<le> 15" and "log2_u16 width = Some lw" and "uint width = 2 ^ lw"
proof -
  have "unat width < 2 ^ LENGTH(16)" by (rule unsigned_less)
  then have "(2::nat) ^ lw < 2 ^ 16" using assms by simp
  then have "lw < 16" by (simp only: power_strict_increasing_iff) 
  then show "lw \<le> 15" by simp
  have "unat width \<noteq> 0" using assms by simp
  then have "width \<noteq> 0" by auto
  then show "log2_u16 width = Some lw"
    by (simp add: log2_u16_def assms ilog2_pow2)
  have "uint width = int (unat width)" by simp
  then show "uint width = 2 ^ lw" by (simp only: assms) simp
qed

lemma slowSwizzle_copy_all:
  fixes width height :: u16
  assumes w: "unat width = 2 ^ lw" and h: "unat height = 2 ^ lh"
  shows "slowSwizzle ub src dst width height swap =
         copy_all swap src (all_pairs (2 ^ lw) (2 ^ lh) lw lh) dst"
proof -
  note pw = pow2_u16[OF w] and ph = pow2_u16[OF h]
  have ulw: "unat (word_of_nat lw :: u16) = lw" and ulh: "unat (word_of_nat lh :: u16) = lh"
    using pw(1) ph(1) by (simp_all add: unat_of_nat)
  have b: "unat (word_of_nat lw :: u16) + unat (word_of_nat lh :: u16) \<le> 32"
    unfolding ulw ulh using pw(1) ph(1) by simp
  have "(2::nat) ^ lh * 2 ^ lw = 2 ^ (lh + lw)" by (simp add: power_add)
  also have "\<dots> \<le> 2 ^ 30" using pw(1) ph(1) by (intro power_increasing) simp_all
  finally have wh: "unat height * unat width < 2 ^ 31" by (simp add: w h)
  have "slow_rows ub src width height swap (word_of_nat lw) (word_of_nat lh) 0 dst =
        copy_all swap src (all_pairs (2 ^ lw) (2 ^ lh) lw lh) dst"
    using slow_rows_copy_all[OF b wh, of 0 ub src swap dst]
    by (simp only: all_pairs_def ulw ulh w h unsigned_0) simp
  then show ?thesis
    by (simp add: slowSwizzle_def pw(2) ph(2))
qed

lemma fast_pairs_eq:
  assumes "lw \<le> 15" "lh \<le> 15" "j < 2 ^ lh"
  shows "fast_row_pairs (2 ^ lw) (32 - 2 * min lw lh) (min lw lh) j = row_pairs (2 ^ lw) lw lh j"
proof -
  let ?m = "min lw lh" and ?e = "32 - 2 * min lw lh"
  have a: "lw - ?m = 0 \<or> lh - ?m = 0" by (simp add: min_def)
  have lw: "?m + (lw - ?m) = lw" and lh: "?m + (lh - ?m) = lh" by simp_all
  have e1: "lw - ?m \<le> ?e" and e2: "lh - ?m \<le> ?e" using assms(1,2) by (simp_all add: min_def)
  have "interleave_spec 0 j ?m ?m + interleave_spec ((j div 2 ^ ?m) * 2 ^ ?m + i) 0 (?m + ?e) ?m
        = interleave_spec i j lw lh" if "i < 2 ^ lw" for i
    using index_identity[OF a _ _ e1 e2, where x = i and y = j and m = "min lw lh"] that assms(3)
    by (simp only: lw lh)
  then show ?thesis
    by (simp add: fast_row_pairs_def row_pairs_def)
qed

lemma interleave_spec_0_y_0: "interleave_spec 0 0 m m = 0"
  using y_lane_zero_iff[of 0 m] by simp

lemma fastSwizzle_copy_all:
  fixes width height :: u16
  assumes w: "unat width = 2 ^ lw" and h: "unat height = 2 ^ lh" and m12: "min lw lh \<le> 12"
  shows "fastSwizzle src dst width height swap =
         copy_all swap src (all_pairs (2 ^ lw) (2 ^ lh) lw lh) dst"
proof -
  note pw = pow2_u16[OF w] and ph = pow2_u16[OF h]
  define m where "m = min lw lh"
  define e where "e = 32 - 2 * m"
  have m: "m \<le> 12" using m12 by (simp add: m_def)
  have me: "2 * m + e = 32" using m by (simp add: e_def)
  have ulw: "unat (word_of_nat lw :: u32) = lw" and ulh: "unat (word_of_nat lh :: u32) = lh"
    using pw(1) ph(1) by (simp_all add: unat_of_nat)
  have lim0: "(if (word_of_nat lw :: u32) < word_of_nat lh then word_of_nat lw else word_of_nat lh)
              = (word_of_nat m :: u32)"
    by (simp add: word_less_nat_alt ulw ulh m_def min_def)
  have um: "unat (word_of_nat m :: u32) = m" using m by (simp add: unat_of_nat)
  have "unat (2 :: u32) * unat (word_of_nat m :: u32) < 2 ^ LENGTH(32)"
    using m by (simp add: um)
  then have "unat (2 * word_of_nat m :: u32) = unat (2 :: u32) * unat (word_of_nat m :: u32)"
    by (simp only: unat_mult_lem)
  then have sh: "unat (word_of_nat m * 2 :: u32) = 2 * m"
    by (simp add: um mult.commute)
  let ?lim = "push_bit (2 * m) 1 :: u32"
  let ?xm = "0x555555 OR NOT (?lim - 1)"
  let ?ym = "0xAAAAAA AND (?lim - 1)"
  have unf: "fastSwizzle src dst width height swap =
             fast_rows src (uint width) (uint height) swap ?xm ?ym ?lim 0 0 0 dst"
    by (simp add: fastSwizzle_def pw(2) ph(2) Let_def lim0 sh)
  have w0: "0 \<le> uint width" by simp
  have "(2::int) ^ lh * 2 ^ lw = 2 ^ (lh + lw)" by (simp add: power_add)
  also have "\<dots> \<le> 2 ^ 30" using pw(1) ph(1) by (intro power_increasing) simp_all
  finally have wh: "uint height * uint width < 2 ^ 31" by (simp add: pw(3) ph(3))
  have oy: "unat (0::u32) = interleave_spec 0 (nat 0) m m" by (simp add: interleave_spec_0_y_0)
  have ox: "unat (0::u32) = (4 ^ m * (nat 0 div 2 ^ m)) mod 2 ^ 32" by simp
  have "fast_rows src (uint width) (uint height) swap ?xm ?ym ?lim 0 0 0 dst =
        copy_all swap src (concat (map (fast_row_pairs (nat (uint width)) e m) [nat 0..<nat (uint height)])) dst"
    using fast_masks[OF m] me w0 wh oy ox
    by (intro fast_rows_copy_all) (simp_all add: e_def)
  also have "nat (uint width) = 2 ^ lw" by (simp add: pw(3))
  also have "nat (uint height) = 2 ^ lh" by (simp add: ph(3))
  also have "map (fast_row_pairs (2 ^ lw) e m) [nat 0..<2 ^ lh] = map (row_pairs (2 ^ lw) lw lh) [0..<2 ^ lh]"
    using fast_pairs_eq[OF pw(1) ph(1)] by (simp add: e_def m_def)
  finally show ?thesis by (simp add: unf all_pairs_def)
qed

lemma row_pairs_flat:
  assumes "0 < w"
  shows "row_pairs w lw lh j = map (\<lambda>k. (k, swz_index w lw lh k)) [j * w..<j * w + w]"
proof -
  have "[j * w..<j * w + w] = map (\<lambda>i. i + j * w) [0..<w]"
    by (simp add: map_add_upt add.commute)
  then show ?thesis
    using assms by (simp add: row_pairs_def swz_index_def add.commute)
qed

lemma all_pairs_flat:
  assumes "0 < w"
  shows "all_pairs w h lw lh = map (\<lambda>k. (k, swz_index w lw lh k)) [0..<h * w]"
proof (induction h)
  case 0
  show ?case by (simp add: all_pairs_def)
next
  case (Suc h)
  have "all_pairs w (Suc h) lw lh = all_pairs w h lw lh @ row_pairs w lw lh h"
    by (simp add: all_pairs_def)
  also have "\<dots> = map (\<lambda>k. (k, swz_index w lw lh k)) ([0..<h * w] @ [h * w..<h * w + w])"
    by (simp add: Suc row_pairs_flat[OF assms])
  also have "[0..<h * w] @ [h * w..<h * w + w] = [0..<h * w + w]"
    by (rule upt_add_eq_append[symmetric]) simp
  also have "h * w + w = Suc h * w" by simp
  finally show ?case .
qed

lemma swz_index_less:
  "swz_index (2 ^ lw) lw lh k < 2 ^ lh * 2 ^ lw"
  unfolding swz_index_def using interleave_spec_less[of _ _ lw lh] by (simp add: power_add mult.commute)

lemma swz_index_inj:
  "inj_on (swz_index (2 ^ lw) lw lh) {..<2 ^ lh * 2 ^ lw}"
proof (rule inj_onI)
  fix a b :: nat
  assume a: "a \<in> {..<2 ^ lh * 2 ^ lw}" and b: "b \<in> {..<2 ^ lh * 2 ^ lw}"
    and e: "swz_index (2 ^ lw) lw lh a = swz_index (2 ^ lw) lw lh b"
  have da: "a div 2 ^ lw < 2 ^ lh" and db: "b div 2 ^ lw < 2 ^ lh"
    using a b by (simp_all add: less_mult_imp_div_less)
  from e interleave_spec_inj[of "a mod 2 ^ lw" "a div 2 ^ lw" lw lh "b mod 2 ^ lw" "b div 2 ^ lw"]
  have "a mod 2 ^ lw = b mod 2 ^ lw \<and> a div 2 ^ lw = b div 2 ^ lw"
    using da db by (simp add: swz_index_def)
  then show "a = b" by (metis div_mult_mod_eq)
qed

lemma copy_all_deswizzle:
  assumes "m \<le> length dst" "\<forall>k<m. T k < length src"
  shows "copy_all False src (map (\<lambda>k. (k, T k)) [0..<m]) dst =
         Some (map (\<lambda>k. src ! T k) [0..<m] @ drop m dst)"
  using assms
proof (induction m)
  case 0
  show ?case by simp
next
  case (Suc m)
  let ?d = "map (\<lambda>k. src ! T k) [0..<m] @ drop m dst"
  have ih: "copy_all False src (map (\<lambda>k. (k, T k)) [0..<m]) dst = Some ?d"
    using Suc by simp
  have len: "length ?d = length dst" using Suc.prems(1) by simp
  have upd: "?d[m := src ! T m] = map (\<lambda>k. src ! T k) [0..<Suc m] @ drop (Suc m) dst"
    using Suc.prems(1) by (simp add: list_update_append upd_conv_take_nth_drop Cons_nth_drop_Suc)
  show ?case
    using Suc.prems len upd by (simp add: copy_all_append ih assign_def del: length_append length_map)
qed

lemma copy_all_swizzle:
  assumes "m \<le> length src" "\<forall>k<m. T k < length dst" "inj_on T {..<m}"
  shows "\<exists>d. copy_all True src (map (\<lambda>k. (k, T k)) [0..<m]) dst = Some d
             \<and> length d = length dst \<and> (\<forall>k<m. d ! T k = src ! k)"
  using assms
proof (induction m)
  case 0
  show ?case by simp
next
  case (Suc m)
  have "inj_on T {..<m}" using Suc.prems(3) by (rule inj_on_subset) auto
  moreover have "m \<le> length src" "\<forall>k<m. T k < length dst" using Suc.prems by simp_all
  ultimately have "\<exists>d. copy_all True src (map (\<lambda>k. (k, T k)) [0..<m]) dst = Some d
             \<and> length d = length dst \<and> (\<forall>k<m. d ! T k = src ! k)"
    by (intro Suc.IH)
  then obtain d where d: "copy_all True src (map (\<lambda>k. (k, T k)) [0..<m]) dst = Some d"
    "length d = length dst" "\<forall>k<m. d ! T k = src ! k" by blast
  have ne: "T k \<noteq> T m" if "k < m" for k
    using Suc.prems(3) that by (auto simp: inj_on_def)
  have "(d[T m := src ! m]) ! T k = src ! k" if "k < Suc m" for k
  proof (cases "k = m")
    case True
    have "T m < length d" using Suc.prems(2) d(2) by simp
    then show ?thesis by (simp add: True)
  next
    case False
    with that have km: "k < m" by simp
    from ne[OF km] have "(d[T m := src ! m]) ! T k = d ! T k" by simp
    then show ?thesis using d(3) km by simp
  qed
  then have "\<forall>k<Suc m. (d[T m := src ! m]) ! T k = src ! k" by blast
  then show ?case
    using d Suc.prems by (simp add: copy_all_append assign_def)
qed

lemma copy_all_pairs_deswizzle:
  assumes "length src = 2 ^ lh * 2 ^ lw" "length dst = 2 ^ lh * 2 ^ lw"
  shows "copy_all False src (all_pairs (2 ^ lw) (2 ^ lh) lw lh) dst =
         Some (map (\<lambda>k. src ! swz_index (2 ^ lw) lw lh k) [0..<2 ^ lh * 2 ^ lw])"
proof -
  have "copy_all False src (map (\<lambda>k. (k, swz_index (2 ^ lw) lw lh k)) [0..<2 ^ lh * 2 ^ lw]) dst =
        Some (map (\<lambda>k. src ! swz_index (2 ^ lw) lw lh k) [0..<2 ^ lh * 2 ^ lw] @ drop (2 ^ lh * 2 ^ lw) dst)"
    using assms swz_index_less[of lw lh] by (intro copy_all_deswizzle) simp_all
  then show ?thesis using assms(2) by (simp add: all_pairs_flat)
qed

lemma copy_all_pairs_swizzle:
  assumes "length src = 2 ^ lh * 2 ^ lw" "length dst = 2 ^ lh * 2 ^ lw"
  shows "\<exists>d. copy_all True src (all_pairs (2 ^ lw) (2 ^ lh) lw lh) dst = Some d
             \<and> length d = 2 ^ lh * 2 ^ lw
             \<and> (\<forall>k<2 ^ lh * 2 ^ lw. d ! swz_index (2 ^ lw) lw lh k = src ! k)"
proof -
  have "\<exists>d. copy_all True src (map (\<lambda>k. (k, swz_index (2 ^ lw) lw lh k)) [0..<2 ^ lh * 2 ^ lw]) dst = Some d
             \<and> length d = length dst
             \<and> (\<forall>k<2 ^ lh * 2 ^ lw. d ! swz_index (2 ^ lw) lw lh k = src ! k)"
    using assms swz_index_less[of lw lh] swz_index_inj[of lw lh] by (intro copy_all_swizzle) simp_all
  then show ?thesis using assms(2) by (simp add: all_pairs_flat)
qed

lemma swz_index_of_xy:
  assumes "x < 2 ^ lw"
  shows "swz_index (2 ^ lw) lw lh (y * 2 ^ lw + x) = interleave_spec x y lw lh"
  using assms by (simp add: swz_index_def)

lemma xy_less:
  assumes "x < (2::nat) ^ lw" "y < 2 ^ lh"
  shows "y * 2 ^ lw + x < 2 ^ lh * 2 ^ lw"
proof -
  have "y * 2 ^ lw + x < y * 2 ^ lw + 2 ^ lw" using assms(1) by simp
  also have "\<dots> = Suc y * 2 ^ lw" by simp
  also have "\<dots> \<le> 2 ^ lh * 2 ^ lw" using assms(2) by (intro mult_le_mono1) simp
  finally show ?thesis .
qed

lemma round_trip_pairs:
  assumes "length src = 2 ^ lh * 2 ^ lw" "length d1 = 2 ^ lh * 2 ^ lw"
    and "\<forall>k<2 ^ lh * 2 ^ lw. d1 ! swz_index (2 ^ lw) lw lh k = src ! k"
  shows "map (\<lambda>k. d1 ! swz_index (2 ^ lw) lw lh k) [0..<2 ^ lh * 2 ^ lw] = src"
proof -
  have "map (\<lambda>k. d1 ! swz_index (2 ^ lw) lw lh k) [0..<2 ^ lh * 2 ^ lw] = map (\<lambda>k. src ! k) [0..<2 ^ lh * 2 ^ lw]"
    using assms(3) by simp
  also have "\<dots> = src" unfolding assms(1)[symmetric] by (rule map_nth)
  finally show ?thesis .
qed

lemma swz_index_degenerate:
  assumes "lw = 0 \<or> lh = 0" "k < 2 ^ lh * 2 ^ lw"
  shows "swz_index (2 ^ lw) lw lh k = k"
  using assms
  by (auto simp: swz_index_def interleave_spec_x_only interleave_spec_y_only)

section \<open>The transcoders on full-size buffers; the harness\<close>

text \<open>
  On buffers of \<open>width * height\<close> elements no index leaves a buffer, and the result is
  known cell by cell.  \<open>memcmp\<close> over \<open>4 * k\<close> bytes compares the first \<open>k\<close> elements
  (\<open>memcmp_first_elements\<close>).
\<close>

lemma transcoders_defined:
  fixes width height :: u16
  assumes w: "unat width = 2 ^ lw" and h: "unat height = 2 ^ lh"
    and ls: "length src = unat width * unat height" and ld: "length dst = unat width * unat height"
  shows "\<exists>d. slowSwizzle ub src dst width height swap = Some d \<and> length d = length dst"
proof -
  have ls': "length src = 2 ^ lh * 2 ^ lw" and ld': "length dst = 2 ^ lh * 2 ^ lw"
    using ls ld by (simp_all add: w h mult.commute)
  show ?thesis
  proof (cases swap)
    case True
    then show ?thesis
      using copy_all_pairs_swizzle[OF ls' ld'] ld'
      by (auto simp: slowSwizzle_copy_all[OF w h])
  next
    case False
    then show ?thesis
      using copy_all_pairs_deswizzle[OF ls' ld'] ld'
      by (simp add: slowSwizzle_copy_all[OF w h])
  qed
qed

lemma mapper_as_called:
  assumes "lw \<le> 15" "lh \<le> 15" "x < 2 ^ lw" "y < 2 ^ lh"
  shows "unat (linear_to_swizzle ub (word_of_nat x) (word_of_nat y) 0 (word_of_nat lw) (word_of_nat lh) 0)
         = interleave_spec x y lw lh"
proof -
  have lw: "unat (word_of_nat lw :: u32) = lw" and lh: "unat (word_of_nat lh :: u32) = lh"
    using assms(1,2) by (simp_all add: unat_of_nat)
  have x: "unat (word_of_nat x :: u32) = x"
    using assms(1,3) by (intro unat_of_nat_u32 pow2_le_32[of lw]) simp_all
  have y: "unat (word_of_nat y :: u32) = y"
    using assms(2,4) by (intro unat_of_nat_u32 pow2_le_32[of lh]) simp_all
  show ?thesis
    using linear_to_swizzle_nat[of "word_of_nat lw" "word_of_nat lh" ub "word_of_nat x" "word_of_nat y" 0]
      assms(1,2)
    by (simp only: lw lh x y)
qed

lemma slowSwizzle_cells:
  fixes width height :: u16
  assumes w: "unat width = 2 ^ lw" and h: "unat height = 2 ^ lh"
    and ls: "length src = unat width * unat height" and ld: "length dst = unat width * unat height"
  shows "\<exists>d. slowSwizzle ub src dst width height swap = Some d \<and> length d = length dst \<and>
           (\<forall>x<2 ^ lw. \<forall>y<2 ^ lh.
              if swap then d ! interleave_spec x y lw lh = src ! (y * 2 ^ lw + x)
              else d ! (y * 2 ^ lw + x) = src ! interleave_spec x y lw lh)"
proof -
  have ls': "length src = 2 ^ lh * 2 ^ lw" and ld': "length dst = 2 ^ lh * 2 ^ lw"
    using ls ld by (simp_all add: w h mult.commute)
  show ?thesis
  proof (cases swap)
    case True
    from copy_all_pairs_swizzle[OF ls' ld'] obtain d where
      d: "copy_all True src (all_pairs (2 ^ lw) (2 ^ lh) lw lh) dst = Some d"
         "length d = 2 ^ lh * 2 ^ lw"
         "\<forall>k<2 ^ lh * 2 ^ lw. d ! swz_index (2 ^ lw) lw lh k = src ! k"
      by blast
    have "d ! interleave_spec x y lw lh = src ! (y * 2 ^ lw + x)" if "x < 2 ^ lw" "y < 2 ^ lh" for x y
      using d(3) xy_less[OF that] swz_index_of_xy[OF that(1), of lh y] by metis
    then show ?thesis
      using True d(1,2) ld' by (simp add: slowSwizzle_copy_all[OF w h])
  next
    case False
    have "map (\<lambda>k. src ! swz_index (2 ^ lw) lw lh k) [0..<2 ^ lh * 2 ^ lw] ! (y * 2 ^ lw + x)
          = src ! interleave_spec x y lw lh" if "x < 2 ^ lw" "y < 2 ^ lh" for x y
      using xy_less[OF that] swz_index_of_xy[OF that(1), of lh y] by simp
    then show ?thesis
      using False copy_all_pairs_deswizzle[OF ls' ld'] ld'
      by (simp add: slowSwizzle_copy_all[OF w h])
  qed
qed

lemma swz_index_surj:
  assumes "i < 2 ^ lh * 2 ^ lw"
  shows "\<exists>k<2 ^ lh * 2 ^ lw. swz_index (2 ^ lw) lw lh k = i"
proof -
  let ?A = "{..<(2::nat) ^ lh * 2 ^ lw}"
  have "swz_index (2 ^ lw) lw lh ` ?A \<subseteq> ?A" using swz_index_less[of lw lh] by auto
  then have "swz_index (2 ^ lw) lw lh ` ?A = ?A"
    using swz_index_inj[of lw lh] by (intro endo_inj_surj) simp_all
  then have "i \<in> swz_index (2 ^ lw) lw lh ` ?A" using assms by simp
  then show ?thesis by auto
qed

lemma copy_all_pairs_dst_independent:
  assumes ls: "length src = 2 ^ lh * 2 ^ lw"
    and l1: "length dst1 = 2 ^ lh * 2 ^ lw" and l2: "length dst2 = 2 ^ lh * 2 ^ lw"
  shows "copy_all swap src (all_pairs (2 ^ lw) (2 ^ lh) lw lh) dst1 =
         copy_all swap src (all_pairs (2 ^ lw) (2 ^ lh) lw lh) dst2"
proof (cases swap)
  case False
  then show ?thesis
    by (simp add: copy_all_pairs_deswizzle[OF ls l1] copy_all_pairs_deswizzle[OF ls l2])
next
  case True
  from copy_all_pairs_swizzle[OF ls l1] obtain d1 where
    d1: "copy_all True src (all_pairs (2 ^ lw) (2 ^ lh) lw lh) dst1 = Some d1"
        "length d1 = 2 ^ lh * 2 ^ lw"
        "\<forall>k<2 ^ lh * 2 ^ lw. d1 ! swz_index (2 ^ lw) lw lh k = src ! k"
    by blast
  from copy_all_pairs_swizzle[OF ls l2] obtain d2 where
    d2: "copy_all True src (all_pairs (2 ^ lw) (2 ^ lh) lw lh) dst2 = Some d2"
        "length d2 = 2 ^ lh * 2 ^ lw"
        "\<forall>k<2 ^ lh * 2 ^ lw. d2 ! swz_index (2 ^ lw) lw lh k = src ! k"
    by blast
  have "d1 = d2"
  proof (rule nth_equalityI)
    show "length d1 = length d2" by (simp only: d1(2) d2(2))
    fix i assume "i < length d1"
    then have "i < 2 ^ lh * 2 ^ lw" by (simp only: d1(2))
    from swz_index_surj[OF this] obtain k where
      k: "k < 2 ^ lh * 2 ^ lw" "swz_index (2 ^ lw) lw lh k = i" by blast
    show "d1 ! i = d2 ! i" using d1(3) d2(3) k by metis
  qed
  then show ?thesis using True d1(1) d2(1) by simp
qed

lemma slowSwizzle_cells_mapper:
  fixes width height :: u16
  assumes w: "unat width = 2 ^ lw" and h: "unat height = 2 ^ lh"
    and ls: "length src = unat width * unat height" and ld: "length dst = unat width * unat height"
  shows "\<exists>d. slowSwizzle ub src dst width height swap = Some d \<and>
             length d = unat width * unat height \<and>
             (\<forall>x<unat width. \<forall>y<unat height.
                if swap
                then d ! unat (linear_to_swizzle ub (word_of_nat x) (word_of_nat y) 0
                                 (word_of_nat (ilog2 (unat width))) (word_of_nat (ilog2 (unat height))) 0)
                     = src ! (y * unat width + x)
                else d ! (y * unat width + x)
                     = src ! unat (linear_to_swizzle ub (word_of_nat x) (word_of_nat y) 0
                                    (word_of_nat (ilog2 (unat width))) (word_of_nat (ilog2 (unat height))) 0))"
proof -
  note pw = pow2_u16[OF w] and ph = pow2_u16[OF h]
  from slowSwizzle_cells[OF w h ls ld, of ub swap] obtain d where
    d: "slowSwizzle ub src dst width height swap = Some d" "length d = length dst"
    and cells: "\<forall>x<2 ^ lw. \<forall>y<2 ^ lh.
              if swap then d ! interleave_spec x y lw lh = src ! (y * 2 ^ lw + x)
              else d ! (y * 2 ^ lw + x) = src ! interleave_spec x y lw lh"
    by blast
  have mp: "unat (linear_to_swizzle ub (word_of_nat x) (word_of_nat y) 0
                   (word_of_nat (ilog2 (unat width))) (word_of_nat (ilog2 (unat height))) 0)
           = interleave_spec x y lw lh" if "x < 2 ^ lw" "y < 2 ^ lh" for x y
    using mapper_as_called[OF pw(1) ph(1) that] by (simp only: w h ilog2_pow2)
  have "\<forall>x<unat width. \<forall>y<unat height.
                if swap
                then d ! unat (linear_to_swizzle ub (word_of_nat x) (word_of_nat y) 0
                                 (word_of_nat (ilog2 (unat width))) (word_of_nat (ilog2 (unat height))) 0)
                     = src ! (y * unat width + x)
                else d ! (y * unat width + x)
                     = src ! unat (linear_to_swizzle ub (word_of_nat x) (word_of_nat y) 0
                                    (word_of_nat (ilog2 (unat width))) (word_of_nat (ilog2 (unat height))) 0)"
  proof (intro allI impI)
    fix x y assume "x < unat width" "y < unat height"
    then have x: "x < 2 ^ lw" and y: "y < 2 ^ lh" by (simp_all add: w h)
    from cells x y have "if swap then d ! interleave_spec x y lw lh = src ! (y * 2 ^ lw + x)
              else d ! (y * 2 ^ lw + x) = src ! interleave_spec x y lw lh" by blast
    then show "if swap
                then d ! unat (linear_to_swizzle ub (word_of_nat x) (word_of_nat y) 0
                                 (word_of_nat (ilog2 (unat width))) (word_of_nat (ilog2 (unat height))) 0)
                     = src ! (y * unat width + x)
                else d ! (y * unat width + x)
                     = src ! unat (linear_to_swizzle ub (word_of_nat x) (word_of_nat y) 0
                                    (word_of_nat (ilog2 (unat width))) (word_of_nat (ilog2 (unat height))) 0)"
      unfolding mp[OF x y] by (simp add: w)
  qed
  then show ?thesis using d ld by simp
qed

lemma fastSwizzle_cells:
  fixes width height :: u16
  assumes w: "unat width = 2 ^ lw" and h: "unat height = 2 ^ lh" and m: "min lw lh \<le> 12"
    and ls: "length src = unat width * unat height"
    and l1: "length dst1 = unat width * unat height" and l2: "length dst2 = unat width * unat height"
  shows "\<exists>d. fastSwizzle src dst1 width height swap = Some d \<and>
             slowSwizzle ub src dst2 width height swap = Some d \<and>
             length d = unat width * unat height \<and>
             (\<forall>x<unat width. \<forall>y<unat height.
                if swap
                then d ! unat (linear_to_swizzle ub (word_of_nat x) (word_of_nat y) 0
                                 (word_of_nat (ilog2 (unat width))) (word_of_nat (ilog2 (unat height))) 0)
                     = src ! (y * unat width + x)
                else d ! (y * unat width + x)
                     = src ! unat (linear_to_swizzle ub (word_of_nat x) (word_of_nat y) 0
                                    (word_of_nat (ilog2 (unat width))) (word_of_nat (ilog2 (unat height))) 0))"
proof -
  have ls': "length src = 2 ^ lh * 2 ^ lw" and l1': "length dst1 = 2 ^ lh * 2 ^ lw"
    and l2': "length dst2 = 2 ^ lh * 2 ^ lw"
    using ls l1 l2 by (simp_all add: w h mult.commute)
  have "fastSwizzle src dst1 width height swap = slowSwizzle ub src dst2 width height swap"
    using copy_all_pairs_dst_independent[OF ls' l1' l2', of swap]
    by (simp add: fastSwizzle_copy_all[OF w h m] slowSwizzle_copy_all[OF w h])
  then show ?thesis
    using slowSwizzle_cells_mapper[OF w h ls l2, of ub swap] by auto
qed

lemma linear_fill_nth: "k < n \<Longrightarrow> linear_fill n ! k = word_of_nat k"
  by (simp add: linear_fill_def)

lemmas transcoder_eval =
  slowSwizzle_def fastSwizzle_def log2_u16_def ilog2.simps slow_rows.simps slow_cols.simps
  fast_rows.simps fast_cols.simps assign_def linear_to_swizzle_def l2s_loop.simps axis_block_def
  shl_u32_def Let_def

lemma assign_length: "assign dst j src i = Some d \<Longrightarrow> length d = length dst"
  by (auto simp: assign_def split: if_splits)

lemma copy_all_None:
  assumes "(lin, swz) \<in> set ps"
    and "if swap then \<not> (lin < length src \<and> swz < length dst)
         else \<not> (swz < length src \<and> lin < length dst)"
  shows "copy_all swap src ps dst = None"
  using assms
proof (induction ps arbitrary: dst)
  case Nil
  then show ?case by simp
next
  case (Cons p ps)
  obtain a b where p: "p = (a, b)" by (cases p)
  show ?case
  proof (cases "if swap then assign dst b src a else assign dst a src b")
    case None
    then show ?thesis by (simp add: p)
  next
    case (Some d)
    then have len: "length d = length dst" by (auto dest: assign_length split: if_splits)
    have "(lin, swz) \<noteq> (a, b)"
      using Some Cons.prems(2) by (auto simp: assign_def split: if_splits)
    then have "(lin, swz) \<in> set ps" using Cons.prems(1) by (auto simp: p)
    then have "copy_all swap src ps d = None"
      using Cons.prems(2) by (intro Cons.IH) (simp_all add: len)
    then show ?thesis using Some by (simp add: p)
  qed
qed

lemma dep_arg_0: "dep M 0 = 0"
proof (induction M rule: less_induct)
  case (less M)
  show ?case
  proof (cases M rule: nat_parity_cases)
    case zero
    then show ?thesis by (simp add: dep_0)
  next
    case (even N)
    then have "N < M" by simp
    from less[OF this] show ?thesis by (simp add: even dep_even)
  next
    case (odd N)
    then have "N < M" by simp
    from less[OF this] show ?thesis by (simp add: odd dep_odd)
  qed
qed

lemma length_word_bytes: "length (word_bytes w) = 4"
  by (simp add: word_bytes_def)

lemma take_buffer_bytes: "take (4 * k) (buffer_bytes buf) = buffer_bytes (take k buf)"
proof (induction buf arbitrary: k)
  case Nil
  show ?case by (simp add: buffer_bytes_def)
next
  case (Cons w ws)
  show ?case
  proof (cases k)
    case 0
    then show ?thesis by (simp add: buffer_bytes_def)
  next
    case (Suc j)
    have "take (4 * Suc j) (word_bytes w @ buffer_bytes ws) = word_bytes w @ take (4 * j) (buffer_bytes ws)"
      by (simp add: length_word_bytes)
    then show ?thesis using Cons[of j] by (simp add: Suc buffer_bytes_def)
  qed
qed

lemma memcmp_quarter:
  "memcmp_differs a b (4 * k) \<longleftrightarrow> buffer_bytes (take k a) \<noteq> buffer_bytes (take k b)"
  by (simp add: memcmp_differs_def take_buffer_bytes)

lemma length_linear_fill: "length (linear_fill n) = n"
  by (simp add: linear_fill_def)

lemma byte_bits:
  fixes a b :: u32
  assumes "(ucast (drop_bit k a) :: u8) = ucast (drop_bit k b)" "r < 8"
  shows "bit a (k + r) = bit b (k + r)"
proof -
  have "bit (ucast (drop_bit k a) :: u8) r = bit (ucast (drop_bit k b) :: u8) r"
    by (simp only: assms(1))
  then show ?thesis using assms(2) by (simp add: bit_ucast_iff bit_drop_bit_eq)
qed

lemma word_bytes_inj:
  assumes "word_bytes a = word_bytes b"
  shows "a = b"
proof (rule bit_eqI)
  fix n assume "possible_bit TYPE(u32) n"
  then have n: "n < 32" by simp
  from assms have e: "(ucast (drop_bit 0 a) :: u8) = ucast (drop_bit 0 b)"
    "(ucast (drop_bit 8 a) :: u8) = ucast (drop_bit 8 b)"
    "(ucast (drop_bit 16 a) :: u8) = ucast (drop_bit 16 b)"
    "(ucast (drop_bit 24 a) :: u8) = ucast (drop_bit 24 b)"
    by (simp_all add: word_bytes_def)
  consider "n < 8" | "8 \<le> n" "n < 16" | "16 \<le> n" "n < 24" | "24 \<le> n" "n < 32"
    using n by linarith
  then show "bit a n = bit b n"
  proof cases
    case 1
    then show ?thesis using byte_bits[OF e(1), of n] by simp
  next
    case 2
    then show ?thesis using byte_bits[OF e(2), of "n - 8"] by simp
  next
    case 3
    then show ?thesis using byte_bits[OF e(3), of "n - 16"] by simp
  next
    case 4
    then show ?thesis using byte_bits[OF e(4), of "n - 24"] by simp
  qed
qed

lemma buffer_bytes_inj:
  "length a = length b \<Longrightarrow> buffer_bytes a = buffer_bytes b \<Longrightarrow> a = b"
proof (induction a b rule: list_induct2)
  case Nil
  show ?case by simp
next
  case (Cons x xs y ys)
  have c: "buffer_bytes (w # ws) = word_bytes w @ buffer_bytes ws" for w ws
    by (simp add: buffer_bytes_def)
  have l: "length (word_bytes x) = length (word_bytes y)" by (simp only: length_word_bytes)
  from Cons.prems have "word_bytes x @ buffer_bytes xs = word_bytes y @ buffer_bytes ys"
    by (simp only: c)
  then have "word_bytes x = word_bytes y \<and> buffer_bytes xs = buffer_bytes ys"
    using l by (metis append_eq_append_conv)
  then have "x = y" and "xs = ys"
    using Cons.IH word_bytes_inj[of x y] by blast+
  then show ?case by simp
qed

lemma memcmp_first_elements:
  assumes "k \<le> length a" "k \<le> length b"
  shows "memcmp_differs a b (4 * k) \<longleftrightarrow> take k a \<noteq> take k b"
proof -
  have "length (take k a) = length (take k b)" using assms by simp
  from buffer_bytes_inj[OF this]
  have "buffer_bytes (take k a) = buffer_bytes (take k b) \<longleftrightarrow> take k a = take k b"
    by auto
  then show ?thesis by (simp only: memcmp_quarter)
qed

lemma length_bytes_words: "length (bytes_words bs) = length bs div 4"
  by (induction bs rule: bytes_words.induct) simp_all

lemma length_buffer_bytes: "length (buffer_bytes buf) = 4 * length buf"
  by (induction buf) (simp_all add: buffer_bytes_def length_word_bytes)

lemma length_memset: "n \<le> 4 * length buf \<Longrightarrow> length (memset buf c n) = length buf"
  by (simp add: memset_def length_bytes_words length_buffer_bytes)

lemma memcmp_same: "\<not> memcmp_differs a a n"
  by (simp add: memcmp_differs_def)

lemma bench_loop_agreeing:
  fixes max_w max_h :: u16
  assumes w: "unat max_w = 2 ^ lw" and h: "unat max_h = 2 ^ lh" and m: "min lw lh \<le> 12"
    and lin: "length linearPixels = unat max_w * unat max_h"
    and ls: "length sb = unat max_w * unat max_h" and lf: "length fb = unat max_w * unat max_h"
  shows "\<exists>s f. bench_loop ub linearPixels max_w max_h numTimes count sb fb out = Some (s, f, out)"
  using ls lf
proof (induction "unat numTimes - unat count" arbitrary: count sb fb)
  case 0
  then have "\<not> count < numTimes" by (simp add: word_less_nat_alt)
  then show ?case by (subst bench_loop.simps) simp
next
  case (Suc n)
  then have lt: "count < numTimes" by (simp add: word_less_nat_alt)
  have nc: "unat (count + 1) = Suc (unat count)" using lt by unat_arith
  let ?n = "unat max_w * unat max_h"
  have ms: "length (memset sb 0xcc ?n) = ?n" and mf: "length (memset fb 0xcc ?n) = ?n"
    using Suc.prems by (simp_all add: length_memset)
  from transcoders_defined[OF w h lin ms, of ub False] obtain d where
    d: "slowSwizzle ub linearPixels (memset sb 0xcc ?n) max_w max_h False = Some d" "length d = ?n"
    using ms by auto
  have f: "fastSwizzle linearPixels (memset fb 0xcc ?n) max_w max_h False = Some d"
  proof -
    have ls': "length linearPixels = 2 ^ lh * 2 ^ lw" using lin by (simp add: w h mult.commute)
    have a: "length (memset sb 0xcc ?n) = 2 ^ lh * 2 ^ lw" and b: "length (memset fb 0xcc ?n) = 2 ^ lh * 2 ^ lw"
      using ms mf by (simp_all add: w h mult.commute)
    show ?thesis
      using d(1) copy_all_pairs_deswizzle[OF ls' a] copy_all_pairs_deswizzle[OF ls' b]
      by (simp add: fastSwizzle_copy_all[OF w h m] slowSwizzle_copy_all[OF w h])
  qed
  have "\<exists>s f. bench_loop ub linearPixels max_w max_h numTimes (count + 1) d d out = Some (s, f, out)"
    using Suc.hyps(2) d(2) by (intro Suc.hyps(1)) (simp_all add: nc)
  then show ?case
    by (subst bench_loop.simps) (simp add: lt d(1) f memcmp_same)
qed

text \<open>
  With the constants of \<open>main\<close> and output buffers of \<open>128 * 128\<close> elements, the outputs
  of the two transcoders agree in every iteration: \<open>main\<close> reports no mismatch and
  returns 0, whatever the output buffers first hold.
\<close>

lemma main_on_own_transcoders:
  assumes "length slow_uninit = 16384" "length fast_uninit = 16384"
  shows "main ub slow_uninit fast_uninit = Some (0, [PrintTimes, SystemPause])"
proof -
  have w: "unat (128 :: u16) = 2 ^ 7" by simp
  have m: "min (7::nat) 7 \<le> 12" by simp
  have n: "unat (128 :: u16) * unat (128 :: u16) = 16384" by simp
  from bench_loop_agreeing[OF w w m, of "linear_fill (unat (128 :: u16) * unat (128 :: u16))"
      slow_uninit fast_uninit ub 4 0 "[]"]
  obtain s f where "bench_loop ub (linear_fill (unat (128 :: u16) * unat (128 :: u16)))
      128 128 4 0 slow_uninit fast_uninit [] = Some (s, f, [])"
    using assms by (auto simp only: length_linear_fill n)
  then show ?thesis by (simp add: main_def main_body_def Let_def)
qed







section \<open>The address mapper: claims\<close>

text \<open>
  C5.  The specification's worked example says that \<open>linear_to_swizzle(3, 2, 0, 2, 2, 0)\<close>
  is \<open>0b1011 = 11\<close>.  It is not: the bits are consumed in the order x0 = 1, y0 = 0,
  x1 = 1, y1 = 1 and are placed from bit 0 upwards, which gives \<open>0b1101 = 13\<close>
  (\<open>1011\<close> is the sequence of consumed bits written first-to-last, not the number).
\<close>

theorem linear_to_swizzle_3_2_is_not_11:
  "linear_to_swizzle shl_mod32 3 2 0 2 2 0 \<noteq> 11"
  by (simp add: linear_to_swizzle_def l2s_loop.simps axis_block_def shl_u32_def)

text \<open>
  C5, as amended: \<open>linear_to_swizzle(3, 2, 0, 2, 2, 0)\<close> returns \<open>0b1101 = 13\<close>, which is
  also what interleaving the bits of 3 and 2, starting with the least significant bit of
  x, gives in the specification's own wording.
\<close>

theorem linear_to_swizzle_3_2_is_13:
  "linear_to_swizzle ub 3 2 0 2 2 0 = 13 \<and> interleave_spec 3 2 2 2 = 13"
  by (simp add: linear_to_swizzle_def l2s_loop.simps axis_block_def shl_u32_def
      interleave_spec_def consumed_bits.simps)

theorem linear_to_swizzle_3_2_is_13_witness:
  "linear_to_swizzle shl_zero 3 2 0 2 2 0 = 13 \<and> interleave_spec 3 2 2 2 = 13"
  by (rule linear_to_swizzle_3_2_is_13)

text \<open>
  C2.  As stated, for all \<open>x < 2 ^ bitsX\<close> and \<open>y < 2 ^ bitsY\<close>, the claim fails when
  \<open>bitsX + bitsY\<close> exceeds 32: the interleaved integer then needs more than the 32 bits
  of the result.  With \<open>x = 65536\<close>, \<open>y = 0\<close> and 17 bits per axis the interleaved
  integer is \<open>2 ^ 32\<close>, which no \<open>u32\<close> equals.
\<close>

theorem linear_to_swizzle_interleaves_counterexample:
  "unat (65536 :: u32) < 2 ^ unat (17 :: u32) \<and> unat (0 :: u32) < 2 ^ unat (17 :: u32) \<and>
   unat (linear_to_swizzle shl_mod32 65536 0 0 17 17 0) \<noteq>
     interleave_spec (unat (65536 :: u32)) (unat (0 :: u32)) (unat (17 :: u32)) (unat (17 :: u32))"
proof -
  have "interleave_spec 65536 0 17 17 = 2 ^ 32"
    by (simp add: interleave_spec_def consumed_bits.simps)
  moreover have "unat (linear_to_swizzle shl_mod32 65536 0 0 17 17 0) < 2 ^ LENGTH(32)"
    by (rule unsigned_less)
  ultimately show ?thesis by simp
qed

text \<open>
  C2, as amended: whenever \<open>bitsX + bitsY \<le> 32\<close>, the mapper returns the integer built
  by consuming one bit of \<open>x\<close> and one bit of \<open>y\<close> alternately, starting with the least
  significant bit of \<open>x\<close>, each consumed bit going to the next free output position, and
  only the remaining axis being consumed once the other is exhausted.  (This holds for
  every \<open>x\<close> and \<open>y\<close>, in particular for \<open>x < 2 ^ bitsX\<close> and \<open>y < 2 ^ bitsY\<close>.)
\<close>

theorem linear_to_swizzle_interleaves:
  assumes "unat bitsX + unat bitsY \<le> 32"
  shows "unat (linear_to_swizzle ub x y 0 bitsX bitsY 0) =
         interleave_spec (unat x) (unat y) (unat bitsX) (unat bitsY)"
  using assms by (rule linear_to_swizzle_nat)

theorem linear_to_swizzle_interleaves_witness:
  "unat (5 :: u32) + unat (3 :: u32) \<le> 32 \<and>
   unat (linear_to_swizzle shl_mod32 19 6 0 5 3 0) =
     interleave_spec (unat (19 :: u32)) (unat (6 :: u32)) (unat (5 :: u32)) (unat (3 :: u32))"
proof -
  have h: "unat (5 :: u32) + unat (3 :: u32) \<le> 32" by simp
  show ?thesis
    using h linear_to_swizzle_interleaves[OF h, of shl_mod32 19 6] by simp
qed

text \<open>
  C10.  With no precondition, the result of \<open>linear_to_swizzle(x, y, 0, bitsX, bitsY, 0)\<close>
  depends only on \<open>x mod 2 ^ bitsX\<close> and \<open>y mod 2 ^ bitsY\<close>: two calls whose coordinates
  agree modulo these powers return the same value.  And the result is always below
  \<open>2 ^ (bitsX + bitsY)\<close>.  Both hold whatever an out-of-range shift yields.
\<close>

theorem linear_to_swizzle_discards_high_bits:
  assumes "unat x mod 2 ^ unat bitsX = unat x' mod 2 ^ unat bitsX"
    and "unat y mod 2 ^ unat bitsY = unat y' mod 2 ^ unat bitsY"
  shows "linear_to_swizzle ub x y 0 bitsX bitsY 0 = linear_to_swizzle ub x' y' 0 bitsX bitsY 0
         \<and> unat (linear_to_swizzle ub x y 0 bitsX bitsY 0) < 2 ^ (unat bitsX + unat bitsY)"
proof -
  have "take_bit (unat bitsX) x = take_bit (unat bitsX) x'"
    using assms(1) by (rule take_bit_eq_of_mod)
  moreover have "take_bit (unat bitsY) y = take_bit (unat bitsY) y'"
    using assms(2) by (rule take_bit_eq_of_mod)
  ultimately have "linear_to_swizzle ub x y 0 bitsX bitsY 0 = linear_to_swizzle ub x' y' 0 bitsX bitsY 0"
    unfolding linear_to_swizzle_def by (rule l2s_loop_cong)
  then show ?thesis using linear_to_swizzle_bound[of ub x y bitsX bitsY] by simp
qed

theorem linear_to_swizzle_discards_high_bits_witness:
  "unat (0x13 :: u32) mod 2 ^ unat (2 :: u32) = unat (0xFFFFFFF7 :: u32) mod 2 ^ unat (2 :: u32) \<and>
   unat (0x26 :: u32) mod 2 ^ unat (1 :: u32) = unat (0 :: u32) mod 2 ^ unat (1 :: u32) \<and>
   linear_to_swizzle shl_mod32 0x13 0x26 0 2 1 0 = linear_to_swizzle shl_mod32 0xFFFFFFF7 0 0 2 1 0 \<and>
   unat (linear_to_swizzle shl_mod32 0x13 0x26 0 2 1 0) < 2 ^ (unat (2 :: u32) + unat (1 :: u32))"
proof -
  have h1: "unat (0x13 :: u32) mod 2 ^ unat (2 :: u32) = unat (0xFFFFFFF7 :: u32) mod 2 ^ unat (2 :: u32)"
    by simp
  have h2: "unat (0x26 :: u32) mod 2 ^ unat (1 :: u32) = unat (0 :: u32) mod 2 ^ unat (1 :: u32)"
    by simp
  from linear_to_swizzle_discards_high_bits[OF h1 h2, of shl_mod32] h1 h2
  show ?thesis by blast
qed

text \<open>
  C3.  For power-of-two \<open>width = 2 ^ lw\<close> and \<open>height = 2 ^ lh\<close> (every pair whose
  address fits 32 bits, which includes all sizes from 1 to 256), the map
  \<open>(x, y) \<mapsto> linear_to_swizzle(x, y, 0, log2(width), log2(height), 0)\<close> restricted to
  \<open>[0, width) \<times> [0, height)\<close> is a bijection onto \<open>{0, ..., width * height - 1}\<close>:
  every offset of that range is hit exactly once.
\<close>

theorem linear_to_swizzle_bijection:
  assumes "width = 2 ^ lw" "height = 2 ^ lh" "lw + lh \<le> 32"
  shows "bij_betw
           (\<lambda>(x, y). unat (linear_to_swizzle ub (word_of_nat x) (word_of_nat y) 0
                              (word_of_nat (ilog2 width)) (word_of_nat (ilog2 height)) 0))
           ({..<width} \<times> {..<height}) {..<width * height}"
proof -
  have lw: "unat (word_of_nat lw :: u32) = lw" and lh: "unat (word_of_nat lh :: u32) = lh"
    using assms(3) by (simp_all add: unat_of_nat)
  have eq: "unat (linear_to_swizzle ub (word_of_nat x) (word_of_nat y) 0
                   (word_of_nat (ilog2 width)) (word_of_nat (ilog2 height)) 0) =
            interleave_spec x y lw lh"
    if "x < 2 ^ lw" "y < 2 ^ lh" for x y
  proof -
    have x: "unat (word_of_nat x :: u32) = x"
      using that(1) assms(3) by (intro unat_of_nat_u32 pow2_le_32[of lw]) simp_all
    have y: "unat (word_of_nat y :: u32) = y"
      using that(2) assms(3) by (intro unat_of_nat_u32 pow2_le_32[of lh]) simp_all
    show ?thesis
      using linear_to_swizzle_nat[of "word_of_nat lw" "word_of_nat lh" ub "word_of_nat x" "word_of_nat y" 0]
        assms(3)
      by (simp only: assms(1,2) ilog2_pow2 lw lh x y)
  qed
  have "bij_betw (\<lambda>(x, y). interleave_spec x y lw lh) ({..<2 ^ lw} \<times> {..<2 ^ lh}) {..<2 ^ (lw + lh)}"
    by (rule interleave_spec_bij)
  then have "bij_betw
           (\<lambda>(x, y). unat (linear_to_swizzle ub (word_of_nat x) (word_of_nat y) 0
                              (word_of_nat (ilog2 width)) (word_of_nat (ilog2 height)) 0))
           ({..<2 ^ lw} \<times> {..<2 ^ lh}) {..<2 ^ (lw + lh)}"
    by (rule bij_betw_cong[THEN iffD2, rotated]) (auto simp: eq)
  then show ?thesis by (simp add: assms(1,2) power_add)
qed

theorem linear_to_swizzle_bijection_witness:
  "(4::nat) = 2 ^ 2 \<and> (2::nat) = 2 ^ 1 \<and> (2::nat) + 1 \<le> 32 \<and>
   bij_betw
     (\<lambda>(x, y). unat (linear_to_swizzle shl_mod32 (word_of_nat x) (word_of_nat y) 0
                        (word_of_nat (ilog2 4)) (word_of_nat (ilog2 2)) 0))
     ({..<4} \<times> {..<2}) {..<4 * 2}"
proof -
  have h1: "(4::nat) = 2 ^ 2" and h2: "(2::nat) = 2 ^ 1" and h3: "(2::nat) + 1 \<le> 32" by simp_all
  from linear_to_swizzle_bijection[OF h1 h2 h3, of shl_mod32] h1 h2 h3 show ?thesis by blast
qed

section \<open>The transcoders: claims\<close>

text \<open>
  C1.  For power-of-two \<open>width = 2 ^ lw\<close> and \<open>height = 2 ^ lh\<close>, square or not, with
  \<open>min lw lh \<le> 12\<close> (which includes every size from 1 to 256), and for both values of
  \<open>swap\<close>: fastSwizzle and slowSwizzle return the same result on the same buffers; and
  on a source of \<open>width * height\<close> elements they return one and the same destination
  buffer \<open>d\<close> also when each is handed a destination buffer of its own, of
  \<open>width * height\<close> elements of any contents.  Every cell of \<open>d\<close> is the one the address
  mapper prescribes: with \<open>offset = linear_to_swizzle(x, y, 0, log2(width), log2(height), 0)\<close>,
  \<open>d[offset] = source[y*width + x]\<close> when swizzling and \<open>d[y*width + x] = source[offset]\<close>
  when de-swizzling.  On the source with \<open>source[i] = i\<close> the de-swizzled cell of
  \<open>(x, y)\<close> holds the offset that fastSwizzle derived by masked subtraction for
  \<open>(x, y)\<close>: it is \<open>linear_to_swizzle(x, y, 0, log2(width), log2(height), 0)\<close>.
\<close>

theorem fastSwizzle_eq_slowSwizzle:
  fixes width height :: u16
  assumes "unat width = 2 ^ lw" and "unat height = 2 ^ lh" and "min lw lh \<le> 12"
  shows "fastSwizzle src dst width height swap = slowSwizzle ub src dst width height swap \<and>
         (length src = unat width * unat height \<and> length dst1 = unat width * unat height \<and>
          length dst2 = unat width * unat height \<longrightarrow>
            (\<exists>d. fastSwizzle src dst1 width height swap = Some d \<and>
                 slowSwizzle ub src dst2 width height swap = Some d \<and>
                 length d = unat width * unat height \<and>
                 (\<forall>x<unat width. \<forall>y<unat height.
                    if swap
                    then d ! unat (linear_to_swizzle ub (word_of_nat x) (word_of_nat y) 0
                                     (word_of_nat (ilog2 (unat width))) (word_of_nat (ilog2 (unat height))) 0)
                         = src ! (y * unat width + x)
                    else d ! (y * unat width + x)
                         = src ! unat (linear_to_swizzle ub (word_of_nat x) (word_of_nat y) 0
                                        (word_of_nat (ilog2 (unat width))) (word_of_nat (ilog2 (unat height))) 0))) \<and>
            (\<exists>t. fastSwizzle (linear_fill (unat width * unat height)) dst1 width height False = Some t \<and>
                 (\<forall>x<unat width. \<forall>y<unat height.
                    t ! (y * unat width + x)
                    = linear_to_swizzle ub (word_of_nat x) (word_of_nat y) 0
                        (word_of_nat (ilog2 (unat width))) (word_of_nat (ilog2 (unat height))) 0)))"
proof -
  note pw = pow2_u16[OF assms(1)] and ph = pow2_u16[OF assms(2)]
  let ?n = "unat width * unat height"
  have same: "fastSwizzle src dst width height swap = slowSwizzle ub src dst width height swap"
    by (simp add: fastSwizzle_copy_all[OF assms(1,2,3)] slowSwizzle_copy_all[OF assms(1,2)])
  have cells: "\<exists>d. fastSwizzle src dst1 width height swap = Some d \<and>
                 slowSwizzle ub src dst2 width height swap = Some d \<and>
                 length d = unat width * unat height \<and>
                 (\<forall>x<unat width. \<forall>y<unat height.
                    if swap
                    then d ! unat (linear_to_swizzle ub (word_of_nat x) (word_of_nat y) 0
                                     (word_of_nat (ilog2 (unat width))) (word_of_nat (ilog2 (unat height))) 0)
                         = src ! (y * unat width + x)
                    else d ! (y * unat width + x)
                         = src ! unat (linear_to_swizzle ub (word_of_nat x) (word_of_nat y) 0
                                        (word_of_nat (ilog2 (unat width))) (word_of_nat (ilog2 (unat height))) 0))"
    if "length src = ?n" "length dst1 = ?n" "length dst2 = ?n"
    using fastSwizzle_cells[OF assms(1,2,3) that] .
  have trace: "\<exists>t. fastSwizzle (linear_fill ?n) dst1 width height False = Some t \<and>
                 (\<forall>x<unat width. \<forall>y<unat height.
                    t ! (y * unat width + x)
                    = linear_to_swizzle ub (word_of_nat x) (word_of_nat y) 0
                        (word_of_nat (ilog2 (unat width))) (word_of_nat (ilog2 (unat height))) 0)"
    if l1: "length dst1 = ?n"
  proof -
    from fastSwizzle_cells[OF assms(1,2,3) length_linear_fill l1 l1, where ub = ub and swap = False] obtain t where
      t: "fastSwizzle (linear_fill ?n) dst1 width height False = Some t"
      and c: "\<forall>x<unat width. \<forall>y<unat height.
                t ! (y * unat width + x)
                = linear_fill ?n ! unat (linear_to_swizzle ub (word_of_nat x) (word_of_nat y) 0
                       (word_of_nat (ilog2 (unat width))) (word_of_nat (ilog2 (unat height))) 0)"
      by auto
    have "t ! (y * unat width + x)
          = linear_to_swizzle ub (word_of_nat x) (word_of_nat y) 0
              (word_of_nat (ilog2 (unat width))) (word_of_nat (ilog2 (unat height))) 0"
      if xy: "x < unat width" "y < unat height" for x y
    proof -
      let ?o = "linear_to_swizzle ub (word_of_nat x) (word_of_nat y) 0
                  (word_of_nat (ilog2 (unat width))) (word_of_nat (ilog2 (unat height))) 0"
      have x: "x < 2 ^ lw" and y: "y < 2 ^ lh" using xy by (simp_all add: assms(1,2))
      have "unat ?o = interleave_spec x y lw lh"
        using mapper_as_called[OF pw(1) ph(1) x y] by (simp only: assms(1,2) ilog2_pow2)
      also have "\<dots> < 2 ^ (lw + lh)" by (rule interleave_spec_less)
      also have "(2::nat) ^ (lw + lh) = ?n" by (simp add: assms(1,2) power_add)
      finally have "linear_fill ?n ! unat ?o = word_of_nat (unat ?o)" by (rule linear_fill_nth)
      then show ?thesis using c xy by simp
    qed
    then show ?thesis using t by blast
  qed
  show ?thesis using same cells trace by blast
qed

theorem fastSwizzle_eq_slowSwizzle_witness:
  "unat (4 :: u16) = 2 ^ 2 \<and> unat (2 :: u16) = 2 ^ 1 \<and> min (2::nat) 1 \<le> 12 \<and>
   length [10, 11, 12, 13, 14, 15, 16, 17 :: u32] = unat (4 :: u16) * unat (2 :: u16) \<and>
   length [0, 0, 0, 0, 0, 0, 0, 0 :: u32] = unat (4 :: u16) * unat (2 :: u16) \<and>
   length [1, 2, 3, 4, 5, 6, 7, 8 :: u32] = unat (4 :: u16) * unat (2 :: u16) \<and>
   2 < unat (4 :: u16) \<and> 0 < unat (2 :: u16) \<and>
   fastSwizzle [10, 11, 12, 13, 14, 15, 16, 17] [0, 0, 0, 0, 0, 0, 0, 0] 4 2 True =
     slowSwizzle shl_mod32 [10, 11, 12, 13, 14, 15, 16, 17] [0, 0, 0, 0, 0, 0, 0, 0] 4 2 True \<and>
   (\<exists>d. fastSwizzle [10, 11, 12, 13, 14, 15, 16, 17] [0, 0, 0, 0, 0, 0, 0, 0] 4 2 True = Some d \<and>
        slowSwizzle shl_mod32 [10, 11, 12, 13, 14, 15, 16, 17] [1, 2, 3, 4, 5, 6, 7, 8] 4 2 True = Some d \<and>
        d ! unat (linear_to_swizzle shl_mod32 (word_of_nat 2) (word_of_nat 0) 0
                    (word_of_nat (ilog2 (unat (4 :: u16)))) (word_of_nat (ilog2 (unat (2 :: u16)))) 0)
          = [10, 11, 12, 13, 14, 15, 16, 17] ! (0 * unat (4 :: u16) + 2)) \<and>
   (\<exists>t. fastSwizzle (linear_fill (unat (4 :: u16) * unat (2 :: u16))) [0, 0, 0, 0, 0, 0, 0, 0] 4 2 False = Some t \<and>
        t ! (0 * unat (4 :: u16) + 2)
          = linear_to_swizzle shl_mod32 (word_of_nat 2) (word_of_nat 0) 0
              (word_of_nat (ilog2 (unat (4 :: u16)))) (word_of_nat (ilog2 (unat (2 :: u16)))) 0) \<and>
   fastSwizzle [10, 11, 12, 13, 14, 15, 16, 17] [0, 0, 0, 0, 0, 0, 0, 0] 4 2 True
     = Some [10, 11, 14, 15, 12, 13, 16, 17] \<and>
   linear_to_swizzle shl_mod32 (word_of_nat 2) (word_of_nat 0) 0
     (word_of_nat (ilog2 (unat (4 :: u16)))) (word_of_nat (ilog2 (unat (2 :: u16)))) 0 = 4"
proof -
  have h1: "unat (4 :: u16) = 2 ^ 2" and h2: "unat (2 :: u16) = 2 ^ 1" and h3: "min (2::nat) 1 \<le> 12"
    and h4: "length [10, 11, 12, 13, 14, 15, 16, 17 :: u32] = unat (4 :: u16) * unat (2 :: u16)"
    and h5: "length [0, 0, 0, 0, 0, 0, 0, 0 :: u32] = unat (4 :: u16) * unat (2 :: u16)"
    and h6: "length [1, 2, 3, 4, 5, 6, 7, 8 :: u32] = unat (4 :: u16) * unat (2 :: u16)"
    and hx: "2 < unat (4 :: u16)" and hy: "0 < unat (2 :: u16)"
    by simp_all
  note t = fastSwizzle_eq_slowSwizzle[OF h1 h2 h3, where src = "[10, 11, 12, 13, 14, 15, 16, 17]"
      and dst = "[0, 0, 0, 0, 0, 0, 0, 0]" and ?dst1.0 = "[0, 0, 0, 0, 0, 0, 0, 0]"
      and ?dst2.0 = "[1, 2, 3, 4, 5, 6, 7, 8]" and swap = True and ub = shl_mod32]
  from t have same: "fastSwizzle [10, 11, 12, 13, 14, 15, 16, 17] [0, 0, 0, 0, 0, 0, 0, 0] 4 2 True =
     slowSwizzle shl_mod32 [10, 11, 12, 13, 14, 15, 16, 17] [0, 0, 0, 0, 0, 0, 0, 0] 4 2 True"
    by blast
  from t h4 h5 h6 obtain d where
    d: "fastSwizzle [10, 11, 12, 13, 14, 15, 16, 17] [0, 0, 0, 0, 0, 0, 0, 0] 4 2 True = Some d"
       "slowSwizzle shl_mod32 [10, 11, 12, 13, 14, 15, 16, 17] [1, 2, 3, 4, 5, 6, 7, 8] 4 2 True = Some d"
    and c: "\<forall>x<unat (4 :: u16). \<forall>y<unat (2 :: u16).
              if True
              then d ! unat (linear_to_swizzle shl_mod32 (word_of_nat x) (word_of_nat y) 0
                               (word_of_nat (ilog2 (unat (4 :: u16)))) (word_of_nat (ilog2 (unat (2 :: u16)))) 0)
                   = [10, 11, 12, 13, 14, 15, 16, 17] ! (y * unat (4 :: u16) + x)
              else d ! (y * unat (4 :: u16) + x)
                   = [10, 11, 12, 13, 14, 15, 16, 17] !
                     unat (linear_to_swizzle shl_mod32 (word_of_nat x) (word_of_nat y) 0
                            (word_of_nat (ilog2 (unat (4 :: u16)))) (word_of_nat (ilog2 (unat (2 :: u16)))) 0)"
    by blast
  from c[rule_format, OF hx hy]
  have cell: "d ! unat (linear_to_swizzle shl_mod32 (word_of_nat 2) (word_of_nat 0) 0
                    (word_of_nat (ilog2 (unat (4 :: u16)))) (word_of_nat (ilog2 (unat (2 :: u16)))) 0)
          = [10, 11, 12, 13, 14, 15, 16, 17] ! (0 * unat (4 :: u16) + 2)"
    by (simp only: if_True)
  from t h4 h5 h6 obtain t' where
    t': "fastSwizzle (linear_fill (unat (4 :: u16) * unat (2 :: u16))) [0, 0, 0, 0, 0, 0, 0, 0] 4 2 False = Some t'"
    and ct: "\<forall>x<unat (4 :: u16). \<forall>y<unat (2 :: u16).
               t' ! (y * unat (4 :: u16) + x)
               = linear_to_swizzle shl_mod32 (word_of_nat x) (word_of_nat y) 0
                   (word_of_nat (ilog2 (unat (4 :: u16)))) (word_of_nat (ilog2 (unat (2 :: u16)))) 0"
    by blast
  note tcell = ct[rule_format, OF hx hy]
  have ev: "fastSwizzle [10, 11, 12, 13, 14, 15, 16, 17] [0, 0, 0, 0, 0, 0, 0, 0] 4 2 True
     = Some [10, 11, 14, 15, 12, 13, 16, 17]"
    by (simp add: transcoder_eval)
  have off: "linear_to_swizzle shl_mod32 (word_of_nat 2) (word_of_nat 0) 0
     (word_of_nat (ilog2 (unat (4 :: u16)))) (word_of_nat (ilog2 (unat (2 :: u16)))) 0 = 4"
    by (simp add: transcoder_eval)
  from h1 h2 h3 h4 h5 h6 hx hy same d cell t' tcell ev off show ?thesis by blast
qed

text \<open>
  C4.  As stated, for every power-of-two width and height, the claim fails for the fast
  transcoder once both dimensions reach 8192: the lane constants \<open>0x555555\<close> and
  \<open>0xAAAAAA\<close> hold 12 bits per axis, so with 13 interleaved bits per axis the thirteenth
  bit of \<open>x\<close> is deposited at bit 26 instead of bit 24.  On an 8192 by 8192 surface the
  swizzle direction indexes element \<open>2 ^ 26\<close> of the destination, one past its end, at
  \<open>x = 4096\<close> of the first row.
\<close>

theorem fastSwizzle_8192_out_of_bounds:
  "fastSwizzle (replicate (2 ^ 26) 0) (replicate (2 ^ 26) 0) 8192 8192 True = None"
proof -
  let ?big = "replicate (2 ^ 26) (0 :: u32)"
  let ?xm = "- 61516459 :: u32"
  have xm: "unat ?xm = 0xFC555555" by simp
  have l: "log2_u16 8192 = Some 13"
    by (simp add: log2_u16_def ilog2.simps)
  have unf: "fastSwizzle ?big ?big 8192 8192 True =
             fast_rows ?big 8192 8192 True ?xm 0xAAAAAA 0x4000000 0 0 0 ?big"
    by (simp add: fastSwizzle_def l Let_def)
  have k: "unat (0 :: u32) = dep (unat ?xm) (0 + nat 0)" by (simp add: dep_arg_0)
  have cols: "fast_cols ?big 8192 True ?xm 0 0 0 0 ?big =
              copy_all True ?big (map (\<lambda>i. (0 + i, 0 + dep (unat ?xm) (0 + i))) [nat 0..<nat 8192]) ?big"
    by (rule fast_cols_copy_all[OF k]) simp_all
  have d: "dep (unat ?xm) 4096 = 2 ^ 26"
    unfolding xm by (simp add: dep.simps)
  have "(4096, 2 ^ 26) \<in> set (map (\<lambda>i. (0 + i, 0 + dep (unat ?xm) (0 + i))) [nat 0..<nat 8192])"
    using d by (simp add: image_iff)
  then have "copy_all True ?big (map (\<lambda>i. (0 + i, 0 + dep (unat ?xm) (0 + i))) [nat 0..<nat 8192]) ?big = None"
    by (rule copy_all_None) simp
  then have "fast_cols ?big 8192 True ?xm 0 0 0 0 ?big = None"
    by (simp only: cols)
  then show ?thesis
    unfolding unf by (subst fast_rows.simps) simp
qed

text \<open>
  C4, as amended: for power-of-two \<open>width = 2 ^ lw\<close> and \<open>height = 2 ^ lh\<close>, equal or
  not, and any source buffer of \<open>width * height\<close> elements, a transcode with
  \<open>swap = true\<close> followed by one with \<open>swap = false\<close>, both done by the reference
  transcoder, returns the original source buffer; this holds at every size a 16-bit
  dimension can take.  When \<open>min lw lh \<le> 12\<close> the fast transcoder can take the place of
  the reference transcoder in either step or in both: it returns the same intermediate
  buffer \<open>d1\<close> and, from \<open>d1\<close>, the original source buffer.  The intermediate buffer
  is the swizzled one: \<open>d1[offset] = source[y*width + x]\<close> with \<open>offset\<close> the address
  mapper's value at \<open>(x, y)\<close>.
\<close>

theorem swizzle_then_deswizzle_is_identity:
  fixes width height :: u16
  assumes "unat width = 2 ^ lw" and "unat height = 2 ^ lh"
    and "length src = unat width * unat height"
    and "length dst1 = unat width * unat height" and "length dst2 = unat width * unat height"
  shows "\<exists>d1. slowSwizzle ub src dst1 width height True = Some d1 \<and>
              slowSwizzle ub d1 dst2 width height False = Some src \<and>
              (min lw lh \<le> 12 \<longrightarrow>
                 fastSwizzle src dst1 width height True = Some d1 \<and>
                 fastSwizzle d1 dst2 width height False = Some src) \<and>
              (\<forall>x<unat width. \<forall>y<unat height.
                 d1 ! unat (linear_to_swizzle ub (word_of_nat x) (word_of_nat y) 0
                              (word_of_nat (ilog2 (unat width))) (word_of_nat (ilog2 (unat height))) 0)
                 = src ! (y * unat width + x))"
proof -
  let ?P = "all_pairs (2 ^ lw) (2 ^ lh) lw lh"
  have ls': "length src = 2 ^ lh * 2 ^ lw" and ld1: "length dst1 = 2 ^ lh * 2 ^ lw"
    and ld2: "length dst2 = 2 ^ lh * 2 ^ lw"
    using assms(3,4,5) by (simp_all add: assms(1,2) mult.commute)
  from slowSwizzle_cells_mapper[OF assms(1,2,3,4), where ub = ub and swap = True] obtain d1 where
    s1: "slowSwizzle ub src dst1 width height True = Some d1"
    and len: "length d1 = unat width * unat height"
    and cells: "\<forall>x<unat width. \<forall>y<unat height.
                 d1 ! unat (linear_to_swizzle ub (word_of_nat x) (word_of_nat y) 0
                              (word_of_nat (ilog2 (unat width))) (word_of_nat (ilog2 (unat height))) 0)
                 = src ! (y * unat width + x)"
    by auto
  have c1: "copy_all True src ?P dst1 = Some d1"
    using s1 by (simp only: slowSwizzle_copy_all[OF assms(1,2)])
  from copy_all_pairs_swizzle[OF ls' ld1] c1 have
    d1: "length d1 = 2 ^ lh * 2 ^ lw"
        "\<forall>k<2 ^ lh * 2 ^ lw. d1 ! swz_index (2 ^ lw) lw lh k = src ! k"
    by auto
  have c2: "copy_all False d1 ?P dst2 = Some src"
    using copy_all_pairs_deswizzle[OF d1(1) ld2] round_trip_pairs[OF ls' d1] by simp
  have s2: "slowSwizzle ub d1 dst2 width height False = Some src"
    using c2 by (simp only: slowSwizzle_copy_all[OF assms(1,2)])
  have f: "fastSwizzle src dst1 width height True = Some d1 \<and>
           fastSwizzle d1 dst2 width height False = Some src" if "min lw lh \<le> 12"
    using c1 c2 by (simp only: fastSwizzle_copy_all[OF assms(1,2) that])
  show ?thesis using s1 s2 f cells by blast
qed

theorem swizzle_then_deswizzle_is_identity_witness:
  "unat (4 :: u16) = 2 ^ 2 \<and>
   length [20, 21, 22, 23, 24, 25, 26, 27, 28, 29, 30, 31, 32, 33, 34, 35 :: u32] = unat (4 :: u16) * unat (4 :: u16) \<and>
   length [0, 0, 0, 0, 0, 0, 0, 0, 0, 0, 0, 0, 0, 0, 0, 0 :: u32] = unat (4 :: u16) * unat (4 :: u16) \<and>
   length [1, 1, 1, 1, 1, 1, 1, 1, 1, 1, 1, 1, 1, 1, 1, 1 :: u32] = unat (4 :: u16) * unat (4 :: u16) \<and>
   min (2::nat) 2 \<le> 12 \<and> 2 < unat (4 :: u16) \<and> 0 < unat (4 :: u16) \<and>
   (\<exists>d1. slowSwizzle shl_mod32 [20, 21, 22, 23, 24, 25, 26, 27, 28, 29, 30, 31, 32, 33, 34, 35]
            [0, 0, 0, 0, 0, 0, 0, 0, 0, 0, 0, 0, 0, 0, 0, 0] 4 4 True = Some d1 \<and>
         slowSwizzle shl_mod32 d1 [1, 1, 1, 1, 1, 1, 1, 1, 1, 1, 1, 1, 1, 1, 1, 1] 4 4 False
           = Some [20, 21, 22, 23, 24, 25, 26, 27, 28, 29, 30, 31, 32, 33, 34, 35] \<and>
         fastSwizzle [20, 21, 22, 23, 24, 25, 26, 27, 28, 29, 30, 31, 32, 33, 34, 35]
            [0, 0, 0, 0, 0, 0, 0, 0, 0, 0, 0, 0, 0, 0, 0, 0] 4 4 True = Some d1 \<and>
         fastSwizzle d1 [1, 1, 1, 1, 1, 1, 1, 1, 1, 1, 1, 1, 1, 1, 1, 1] 4 4 False
           = Some [20, 21, 22, 23, 24, 25, 26, 27, 28, 29, 30, 31, 32, 33, 34, 35] \<and>
         d1 ! unat (linear_to_swizzle shl_mod32 (word_of_nat 2) (word_of_nat 0) 0
                     (word_of_nat (ilog2 (unat (4 :: u16)))) (word_of_nat (ilog2 (unat (4 :: u16)))) 0)
           = [20, 21, 22, 23, 24, 25, 26, 27, 28, 29, 30, 31, 32, 33, 34, 35] ! (0 * unat (4 :: u16) + 2)) \<and>
   fastSwizzle [20, 21, 22, 23, 24, 25, 26, 27, 28, 29, 30, 31, 32, 33, 34, 35]
     [0, 0, 0, 0, 0, 0, 0, 0, 0, 0, 0, 0, 0, 0, 0, 0] 4 4 True
     = Some [20, 21, 24, 25, 22, 23, 26, 27, 28, 29, 32, 33, 30, 31, 34, 35]"
proof -
  have h1: "unat (4 :: u16) = 2 ^ 2"
    and h3: "length [20, 21, 22, 23, 24, 25, 26, 27, 28, 29, 30, 31, 32, 33, 34, 35 :: u32] = unat (4 :: u16) * unat (4 :: u16)"
    and h4: "length [0, 0, 0, 0, 0, 0, 0, 0, 0, 0, 0, 0, 0, 0, 0, 0 :: u32] = unat (4 :: u16) * unat (4 :: u16)"
    and h5: "length [1, 1, 1, 1, 1, 1, 1, 1, 1, 1, 1, 1, 1, 1, 1, 1 :: u32] = unat (4 :: u16) * unat (4 :: u16)"
    and hm: "min (2::nat) 2 \<le> 12" and hx: "2 < unat (4 :: u16)" and hy: "0 < unat (4 :: u16)"
    by simp_all
  from swizzle_then_deswizzle_is_identity[OF h1 h1 h3 h4 h5, where ub = shl_mod32] hm
  obtain d1 where
    d: "slowSwizzle shl_mod32 [20, 21, 22, 23, 24, 25, 26, 27, 28, 29, 30, 31, 32, 33, 34, 35]
            [0, 0, 0, 0, 0, 0, 0, 0, 0, 0, 0, 0, 0, 0, 0, 0] 4 4 True = Some d1"
       "slowSwizzle shl_mod32 d1 [1, 1, 1, 1, 1, 1, 1, 1, 1, 1, 1, 1, 1, 1, 1, 1] 4 4 False
           = Some [20, 21, 22, 23, 24, 25, 26, 27, 28, 29, 30, 31, 32, 33, 34, 35]"
       "fastSwizzle [20, 21, 22, 23, 24, 25, 26, 27, 28, 29, 30, 31, 32, 33, 34, 35]
            [0, 0, 0, 0, 0, 0, 0, 0, 0, 0, 0, 0, 0, 0, 0, 0] 4 4 True = Some d1"
       "fastSwizzle d1 [1, 1, 1, 1, 1, 1, 1, 1, 1, 1, 1, 1, 1, 1, 1, 1] 4 4 False
           = Some [20, 21, 22, 23, 24, 25, 26, 27, 28, 29, 30, 31, 32, 33, 34, 35]"
    and c: "\<forall>x<unat (4 :: u16). \<forall>y<unat (4 :: u16).
                 d1 ! unat (linear_to_swizzle shl_mod32 (word_of_nat x) (word_of_nat y) 0
                              (word_of_nat (ilog2 (unat (4 :: u16)))) (word_of_nat (ilog2 (unat (4 :: u16)))) 0)
                 = [20, 21, 22, 23, 24, 25, 26, 27, 28, 29, 30, 31, 32, 33, 34, 35] ! (y * unat (4 :: u16) + x)"
    by blast
  note cell = c[rule_format, OF hx hy]
  have ev: "fastSwizzle [20, 21, 22, 23, 24, 25, 26, 27, 28, 29, 30, 31, 32, 33, 34, 35]
     [0, 0, 0, 0, 0, 0, 0, 0, 0, 0, 0, 0, 0, 0, 0, 0] 4 4 True
     = Some [20, 21, 24, 25, 22, 23, 26, 27, 28, 29, 32, 33, 30, 31, 34, 35]"
    by (simp add: transcoder_eval)
  from h1 h3 h4 h5 hm hx hy d cell ev show ?thesis by blast
qed

text \<open>
  C6.  The particular case of the claim fails: on a 4 by 4 surface with \<open>swap = false\<close>
  the reference transcoder places \<open>source[13]\<close>, not \<open>source[11]\<close>, at
  \<open>destination[2*4+3]\<close>, because the offset of \<open>(3, 2)\<close> is 13.
\<close>

theorem slowSwizzle_4x4_cell_11_is_source_13:
  "slowSwizzle shl_mod32 [0, 1, 2, 3, 4, 5, 6, 7, 8, 9, 10, 11, 12, 13, 14, 15]
     [0xCCCCCCCC, 0xCCCCCCCC, 0xCCCCCCCC, 0xCCCCCCCC,
      0xCCCCCCCC, 0xCCCCCCCC, 0xCCCCCCCC, 0xCCCCCCCC,
      0xCCCCCCCC, 0xCCCCCCCC, 0xCCCCCCCC, 0xCCCCCCCC,
      0xCCCCCCCC, 0xCCCCCCCC, 0xCCCCCCCC, 0xCCCCCCCC] 4 4 False
   = Some [0, 1, 4, 5, 2, 3, 6, 7, 8, 9, 12, 13, 10, 11, 14, 15] \<and>
   [0, 1, 4, 5, 2, 3, 6, 7, 8, 9, 12, 13, 10, 11, 14, 15 :: u32] ! (2 * 4 + 3) \<noteq>
   [0, 1, 2, 3, 4, 5, 6, 7, 8, 9, 10, 11, 12, 13, 14, 15 :: u32] ! 11"
  by (simp add: transcoder_eval)

text \<open>
  C6, as amended: for power-of-two width and height and buffers of \<open>width * height\<close>
  elements, the reference transcoder returns a destination \<open>d\<close> such that, for each
  \<open>y\<close> in \<open>[0, height)\<close> and \<open>x\<close> in \<open>[0, width)\<close> with \<open>offset\<close> the address mapper's
  value at \<open>(x, y)\<close>: \<open>d[y*width + x] = source[offset]\<close> when \<open>swap = false\<close> and
  \<open>d[offset] = source[y*width + x]\<close> when \<open>swap = true\<close>; in particular with
  \<open>width = height = 4\<close> and \<open>swap = false\<close> it places \<open>source[13]\<close> at
  \<open>destination[2*4+3] = destination[11]\<close>.
\<close>

theorem slowSwizzle_writes_cells:
  fixes width height :: u16
  assumes "unat width = 2 ^ lw" and "unat height = 2 ^ lh"
    and "length src = unat width * unat height" and "length dst = unat width * unat height"
    and "x < unat width" and "y < unat height"
  shows "\<exists>d. slowSwizzle ub src dst width height swap = Some d \<and>
           (if swap
            then d ! unat (linear_to_swizzle ub (word_of_nat x) (word_of_nat y) 0
                             (word_of_nat (ilog2 (unat width))) (word_of_nat (ilog2 (unat height))) 0)
                 = src ! (y * unat width + x)
            else d ! (y * unat width + x)
                 = src ! unat (linear_to_swizzle ub (word_of_nat x) (word_of_nat y) 0
                                (word_of_nat (ilog2 (unat width))) (word_of_nat (ilog2 (unat height))) 0))
           \<and> (unat width = 4 \<and> unat height = 4 \<and> \<not> swap \<longrightarrow> d ! (2 * 4 + 3) = src ! 13)"
proof -
  note pw = pow2_u16[OF assms(1)] and ph = pow2_u16[OF assms(2)]
  from slowSwizzle_cells[OF assms(1-4), of ub swap] obtain d where
    d: "slowSwizzle ub src dst width height swap = Some d"
    and cells: "\<forall>x<2 ^ lw. \<forall>y<2 ^ lh.
              if swap then d ! interleave_spec x y lw lh = src ! (y * 2 ^ lw + x)
              else d ! (y * 2 ^ lw + x) = src ! interleave_spec x y lw lh"
    by blast
  have x: "x < 2 ^ lw" and y: "y < 2 ^ lh" using assms(1,2,5,6) by simp_all
  have m: "unat (linear_to_swizzle ub (word_of_nat x) (word_of_nat y) 0
                   (word_of_nat (ilog2 (unat width))) (word_of_nat (ilog2 (unat height))) 0)
           = interleave_spec x y lw lh"
    using mapper_as_called[OF pw(1) ph(1) x y] by (simp only: assms(1,2) ilog2_pow2)
  have general: "if swap then d ! interleave_spec x y lw lh = src ! (y * unat width + x)
                 else d ! (y * unat width + x) = src ! interleave_spec x y lw lh"
    using cells x y by (simp add: assms(1))
  have particular: "d ! (2 * 4 + 3) = src ! 13" if "unat width = 4" "unat height = 4" "\<not> swap"
  proof -
    have "(2::nat) ^ lw = 2 ^ 2" "(2::nat) ^ lh = 2 ^ 2" using that assms(1,2) by simp_all
    then have l: "lw = 2" "lh = 2" by (simp_all only: power_inject_exp[of 2])
    have i: "interleave_spec 3 2 2 2 = 13"
      by (simp add: interleave_spec_def consumed_bits.simps)
    have "(3::nat) < 2 ^ lw" "(2::nat) < 2 ^ lh" by (simp_all add: l)
    from cells[rule_format, OF this]
    have "d ! (2 * 2 ^ lw + 3) = src ! interleave_spec 3 2 lw lh"
      using that(3) by simp
    then show ?thesis by (simp add: l i)
  qed
  show ?thesis
    using d general particular by (simp only: m) blast
qed

theorem slowSwizzle_writes_cells_witness:
  "unat (4 :: u16) = 2 ^ 2 \<and> unat (4 :: u16) = 2 ^ 2 \<and>
   length [0, 1, 2, 3, 4, 5, 6, 7, 8, 9, 10, 11, 12, 13, 14, 15 :: u32] = unat (4 :: u16) * unat (4 :: u16) \<and>
   length ([0xCCCCCCCC, 0xCCCCCCCC, 0xCCCCCCCC, 0xCCCCCCCC,
            0xCCCCCCCC, 0xCCCCCCCC, 0xCCCCCCCC, 0xCCCCCCCC,
            0xCCCCCCCC, 0xCCCCCCCC, 0xCCCCCCCC, 0xCCCCCCCC,
            0xCCCCCCCC, 0xCCCCCCCC, 0xCCCCCCCC, 0xCCCCCCCC] :: u32 list) = unat (4 :: u16) * unat (4 :: u16) \<and>
   3 < unat (4 :: u16) \<and> 2 < unat (4 :: u16) \<and>
   (\<exists>d. slowSwizzle shl_mod32 [0, 1, 2, 3, 4, 5, 6, 7, 8, 9, 10, 11, 12, 13, 14, 15]
          [0xCCCCCCCC, 0xCCCCCCCC, 0xCCCCCCCC, 0xCCCCCCCC,
           0xCCCCCCCC, 0xCCCCCCCC, 0xCCCCCCCC, 0xCCCCCCCC,
           0xCCCCCCCC, 0xCCCCCCCC, 0xCCCCCCCC, 0xCCCCCCCC,
           0xCCCCCCCC, 0xCCCCCCCC, 0xCCCCCCCC, 0xCCCCCCCC] 4 4 False = Some d \<and>
        d ! (2 * 4 + 3) = [0, 1, 2, 3, 4, 5, 6, 7, 8, 9, 10, 11, 12, 13, 14, 15 :: u32] ! 13)"
proof -
  have h1: "unat (4 :: u16) = 2 ^ 2"
    and h3: "length [0, 1, 2, 3, 4, 5, 6, 7, 8, 9, 10, 11, 12, 13, 14, 15 :: u32] = unat (4 :: u16) * unat (4 :: u16)"
    and h4: "length ([0xCCCCCCCC, 0xCCCCCCCC, 0xCCCCCCCC, 0xCCCCCCCC,
            0xCCCCCCCC, 0xCCCCCCCC, 0xCCCCCCCC, 0xCCCCCCCC,
            0xCCCCCCCC, 0xCCCCCCCC, 0xCCCCCCCC, 0xCCCCCCCC,
            0xCCCCCCCC, 0xCCCCCCCC, 0xCCCCCCCC, 0xCCCCCCCC] :: u32 list) = unat (4 :: u16) * unat (4 :: u16)"
    and h5: "3 < unat (4 :: u16)" and h6: "2 < unat (4 :: u16)"
    by simp_all
  have h7: "unat (4 :: u16) = 4" by simp
  from slowSwizzle_writes_cells[OF h1 h1 h3 h4 h5 h6, of shl_mod32 False] h7
  have "\<exists>d. slowSwizzle shl_mod32 [0, 1, 2, 3, 4, 5, 6, 7, 8, 9, 10, 11, 12, 13, 14, 15]
          [0xCCCCCCCC, 0xCCCCCCCC, 0xCCCCCCCC, 0xCCCCCCCC,
           0xCCCCCCCC, 0xCCCCCCCC, 0xCCCCCCCC, 0xCCCCCCCC,
           0xCCCCCCCC, 0xCCCCCCCC, 0xCCCCCCCC, 0xCCCCCCCC,
           0xCCCCCCCC, 0xCCCCCCCC, 0xCCCCCCCC, 0xCCCCCCCC] 4 4 False = Some d \<and>
        d ! (2 * 4 + 3) = [0, 1, 2, 3, 4, 5, 6, 7, 8, 9, 10, 11, 12, 13, 14, 15 :: u32] ! 13"
    by blast
  with h1 h3 h4 h5 h6 show ?thesis by blast
qed

text \<open>
  C7.  When \<open>width = 1\<close> or \<open>height = 1\<close>, the other dimension being any power of two,
  both transcoders stay inside the buffers (they return a result) and the result is the
  source buffer itself: \<open>destination[i] = source[i]\<close> for every \<open>i\<close>, in both directions.
\<close>

theorem degenerate_surface_is_identity:
  fixes width height :: u16
  assumes "unat width = 2 ^ lw" and "unat height = 2 ^ lh" and "unat width = 1 \<or> unat height = 1"
    and "length src = unat width * unat height" and "length dst = unat width * unat height"
  shows "slowSwizzle ub src dst width height swap = Some src \<and>
         fastSwizzle src dst width height swap = Some src"
proof -
  have z: "lw = 0 \<or> lh = 0" using assms(1,2,3) by auto
  then have m: "min lw lh \<le> 12" by auto
  have ls': "length src = 2 ^ lh * 2 ^ lw" and ld': "length dst = 2 ^ lh * 2 ^ lw"
    using assms(4,5) by (simp_all add: assms(1,2) mult.commute)
  have "copy_all swap src (all_pairs (2 ^ lw) (2 ^ lh) lw lh) dst = Some src"
  proof (cases swap)
    case True
    from copy_all_pairs_swizzle[OF ls' ld'] obtain d where
      d: "copy_all True src (all_pairs (2 ^ lw) (2 ^ lh) lw lh) dst = Some d"
         "length d = 2 ^ lh * 2 ^ lw"
         "\<forall>k<2 ^ lh * 2 ^ lw. d ! swz_index (2 ^ lw) lw lh k = src ! k"
      by blast
    have "d = src"
    proof (rule nth_equalityI)
      show "length d = length src" using d(2) ls' by simp
      fix k assume "k < length d"
      then have k: "k < 2 ^ lh * 2 ^ lw" using d(2) by simp
      show "d ! k = src ! k"
        using d(3) k swz_index_degenerate[OF z k] by metis
    qed
    then show ?thesis using True d(1) by simp
  next
    case False
    have "map (\<lambda>k. src ! swz_index (2 ^ lw) lw lh k) [0..<2 ^ lh * 2 ^ lw] = map (\<lambda>k. src ! k) [0..<2 ^ lh * 2 ^ lw]"
      using swz_index_degenerate[OF z] by simp
    also have "\<dots> = src" unfolding ls'[symmetric] by (rule map_nth)
    finally show ?thesis
      using False copy_all_pairs_deswizzle[OF ls' ld'] by simp
  qed
  then show ?thesis
    by (simp add: fastSwizzle_copy_all[OF assms(1,2) m] slowSwizzle_copy_all[OF assms(1,2)])
qed

theorem degenerate_surface_is_identity_witness:
  "unat (1 :: u16) = 2 ^ 0 \<and> unat (4 :: u16) = 2 ^ 2 \<and> (unat (1 :: u16) = 1 \<or> unat (4 :: u16) = 1) \<and>
   length [7, 8, 9, 10 :: u32] = unat (1 :: u16) * unat (4 :: u16) \<and>
   length [0, 0, 0, 0 :: u32] = unat (1 :: u16) * unat (4 :: u16) \<and>
   slowSwizzle shl_mod32 [7, 8, 9, 10] [0, 0, 0, 0] 1 4 True = Some [7, 8, 9, 10] \<and>
   fastSwizzle [7, 8, 9, 10] [0, 0, 0, 0] 1 4 True = Some [7, 8, 9, 10]"
proof -
  have h1: "unat (1 :: u16) = 2 ^ 0" and h2: "unat (4 :: u16) = 2 ^ 2"
    and h3: "unat (1 :: u16) = 1 \<or> unat (4 :: u16) = 1"
    and h4: "length [7, 8, 9, 10 :: u32] = unat (1 :: u16) * unat (4 :: u16)"
    and h5: "length [0, 0, 0, 0 :: u32] = unat (1 :: u16) * unat (4 :: u16)"
    by simp_all
  from degenerate_surface_is_identity[OF h1 h2 h3 h4 h5, of shl_mod32 True] h1 h2 h3 h4 h5
  show ?thesis by blast
qed

section \<open>The harness: claims\<close>





end
